theory Spec2Isabelle
  imports Main "HOL-Library.AList"
begin

section \<open>Values, objects and the object store\<close>

text \<open>
  The field values of a definition are JavaScript values. Numbers are modelled as
  unbounded integers plus the one number that is not equal to itself; an object value
  is a reference into the store.
\<close>

datatype jsval =
    JUndefined
  | JNull
  | JBool bool
  | JNum int
  | JNaN
  | JStr string
  | JRef nat

text \<open>The operator \<^verbatim>\<open>===\<close>: equality of values, except that NaN equals nothing.\<close>

fun strict_eq :: "jsval \<Rightarrow> jsval \<Rightarrow> bool" where
  "strict_eq JNaN _ = False"
| "strict_eq _ JNaN = False"
| "strict_eq a b = (a = b)"

text \<open>
  An object maps property names to values; reading a property the object does not have
  gives \<^verbatim>\<open>undefined\<close>. Objects live in a store and are passed by reference: an address
  is an index into the store, and a new object is put at the end.
\<close>

type_synonym obj = "string \<rightharpoonup> jsval"

definition get_prop :: "obj \<Rightarrow> string \<Rightarrow> jsval" where
  "get_prop ob k = (case ob k of None \<Rightarrow> JUndefined | Some v \<Rightarrow> v)"

text \<open>Assigning a property of the object at an address: \<^verbatim>\<open>a[k] = v\<close>.\<close>

definition set_prop :: "nat \<Rightarrow> string \<Rightarrow> jsval \<Rightarrow> obj list \<Rightarrow> obj list" where
  "set_prop a k v h = h[a := (h ! a)(k \<mapsto> v)]"

text \<open>
  \<^verbatim>\<open>Object.assign(target, source)\<close> copies every own property of the source into the
  target, overriding the target's property of the same name.
\<close>

definition object_assign :: "obj \<Rightarrow> obj \<Rightarrow> obj" where
  "object_assign target source = target ++ source"

section \<open>The built-in Map\<close>

text \<open>
  A \<^verbatim>\<open>Map<number, TInterfacedModel>\<close> keeps its entries in insertion order; it is an
  association list from identities to the addresses of the stored definitions.
  \<^verbatim>\<open>set\<close> overwrites the value of a key that is present, in place, and appends a new
  key; \<^verbatim>\<open>delete\<close> says whether the key was present.
\<close>

type_synonym jsmap = "(int \<times> nat) list"

definition map_get :: "jsmap \<Rightarrow> int \<Rightarrow> nat option" where
  "map_get m k = map_of m k"

definition map_set :: "int \<Rightarrow> nat \<Rightarrow> jsmap \<Rightarrow> jsmap" where
  "map_set k v m = AList.update k v m"

definition map_delete :: "int \<Rightarrow> jsmap \<Rightarrow> bool \<times> jsmap" where
  "map_delete k m = (k \<in> fst ` set m, AList.delete k m)"

definition map_size :: "jsmap \<Rightarrow> nat" where
  "map_size m = length m"

section \<open>The state of a Database and of the objects around it\<close>

record state =
  heap :: "obj list"
  autoincrement :: int
  records :: jsmap
  lastQuery :: jsmap

text \<open>A new Database, in a program whose objects so far are \<open>h\<close>.\<close>

definition fresh :: "obj list \<Rightarrow> state" where
  "fresh h = \<lparr>heap = h, autoincrement = 0, records = [], lastQuery = []\<rparr>"

section \<open>Model\<close>

text \<open>
  A Model holds its own \<^verbatim>\<open>id\<close> and, for every other key of the definition it was
  constructed from, an accessor that reads and writes that definition object.
\<close>

record model =
  model_id :: jsval
  backing :: nat

definition new_Model :: "nat \<Rightarrow> state \<Rightarrow> model" where
  "new_Model d s = \<lparr>model_id = get_prop (heap s ! d) ''id'', backing = d\<rparr>"

text \<open>Reading a field of a Model: \<^verbatim>\<open>id\<close> is the Model's own, the others are getters.\<close>

definition model_get :: "model \<Rightarrow> string \<Rightarrow> state \<Rightarrow> jsval" where
  "model_get m k s = (if k = ''id'' then model_id m else get_prop (heap s ! backing m) k)"

text \<open>
  Assigning a field of a Model. The setter of a key of the definition writes the
  definition object the Model was constructed from. There is no setter for \<^verbatim>\<open>id\<close>,
  nor for a key the definition did not have: such an assignment never reaches the store.
\<close>

definition model_set :: "model \<Rightarrow> string \<Rightarrow> jsval \<Rightarrow> state \<Rightarrow> state" where
  "model_set m k v s =
     (if k = ''id'' then s
      else if (heap s ! backing m) k \<noteq> None
      then s\<lparr>heap := set_prop (backing m) k v (heap s)\<rparr>
      else s)"

section \<open>Database\<close>

datatype error = Error int

text \<open>
  \<^verbatim>\<open>new this.modelDefinition(Object.assign({ id }, definition))\<close>: a new object
  \<^verbatim>\<open>{ id }\<close> receives the properties of the stored definition, and the Model is
  constructed from that new object.
\<close>

definition createFromTemplate :: "nat \<Rightarrow> int \<Rightarrow> state \<Rightarrow> model \<times> state" where
  "createFromTemplate d i s =
     (let merged = object_assign [''id'' \<mapsto> JNum i] (heap s ! d);
          s' = s\<lparr>heap := heap s @ [merged]\<rparr>
      in (new_Model (length (heap s)) s', s'))"

definition switchRecordsRetrieval :: "bool \<Rightarrow> state \<Rightarrow> jsmap" where
  "switchRecordsRetrieval st s = (if st then lastQuery s else records s)"

text \<open>The body of \<^verbatim>\<open>forEach\<close> in \<^verbatim>\<open>all\<close> and \<^verbatim>\<open>get\<close>, over the entries in order.\<close>

fun instantiate :: "jsmap \<Rightarrow> model list \<Rightarrow> state \<Rightarrow> model list \<times> state" where
  "instantiate [] models s = (models, s)"
| "instantiate ((index, record) # es) models s =
     (let (m, s') = createFromTemplate record index s
      in instantiate es (models @ [m]) s')"

definition all :: "state \<Rightarrow> model list \<times> state" where
  "all s = instantiate (records s) [] s"

definition count :: "bool \<Rightarrow> state \<Rightarrow> nat" where
  "count scopedSize s =
     (if scopedSize then map_size (lastQuery s) else map_size (records s))"

fun delete_loop :: "jsmap \<Rightarrow> jsmap \<Rightarrow> nat \<Rightarrow> jsmap \<times> nat" where
  "delete_loop [] recs recordsRemoved = (recs, recordsRemoved)"
| "delete_loop ((k, a) # es) recs recordsRemoved =
     (let (existed, recs') = map_delete k recs
      in delete_loop es recs' (if existed then recordsRemoved + 1 else recordsRemoved))"

definition delete_db :: "state \<Rightarrow> nat \<times> state" where
  "delete_db s =
     (let (recs, recordsRemoved) = delete_loop (lastQuery s) (records s) 0
      in (recordsRemoved, s\<lparr>records := recs, lastQuery := []\<rparr>))"

definition find_db :: "int \<Rightarrow> state \<Rightarrow> model option \<times> state" where
  "find_db index s =
     (case map_get (records s) index of
        None \<Rightarrow> (None, s)
      | Some d \<Rightarrow> (let (m, s') = createFromTemplate d index s in (Some m, s')))"

definition first :: "bool \<Rightarrow> state \<Rightarrow> model option \<times> state" where
  "first retrieveFromLastQuery s =
     (case switchRecordsRetrieval retrieveFromLastQuery s of
        [] \<Rightarrow> (None, s)
      | (k, d) # _ \<Rightarrow>
          (let (m, s') = createFromTemplate d k (s\<lparr>lastQuery := []\<rparr>) in (Some m, s')))"

definition get :: "state \<Rightarrow> model list \<times> state" where
  "get s =
     (let (models, s') = instantiate (lastQuery s) [] s
      in (models, s'\<lparr>lastQuery := []\<rparr>))"

definition insert_db :: "nat \<Rightarrow> state \<Rightarrow> model \<times> state" where
  "insert_db d s =
     (let s1 = s\<lparr>autoincrement := autoincrement s + 1\<rparr>;
          s2 = s1\<lparr>records := map_set (autoincrement s1) d (records s1)\<rparr>
      in createFromTemplate d (autoincrement s2) s2)"

definition last_db :: "bool \<Rightarrow> state \<Rightarrow> model option \<times> state" where
  "last_db retrieveFromLastQuery s =
     (case map_get (switchRecordsRetrieval retrieveFromLastQuery s) (autoincrement s) of
        None \<Rightarrow> (None, s)
      | Some d \<Rightarrow>
          (let (m, s') = createFromTemplate d (autoincrement s) (s\<lparr>lastQuery := []\<rparr>)
           in (Some m, s')))"

definition truncate_db :: "state \<Rightarrow> state" where
  "truncate_db s = s\<lparr>lastQuery := [], records := []\<rparr>"

text \<open>
  The loop of \<^verbatim>\<open>update\<close> over the entries of the query scope. It stops at the first
  identity that the records do not have, with the error and the store as written so far.
\<close>

fun update_loop ::
  "jsmap \<Rightarrow> jsmap \<Rightarrow> string \<Rightarrow> jsval \<Rightarrow> obj list \<Rightarrow> error option \<times> obj list" where
  "update_loop [] recs col v h = (None, h)"
| "update_loop ((k, a) # es) recs col v h =
     (case map_get recs k of
        None \<Rightarrow> (Some (Error k), h)
      | Some dbModel \<Rightarrow>
          update_loop es recs col v (set_prop dbModel col v (set_prop a col v h)))"

definition update_db :: "string \<Rightarrow> jsval \<Rightarrow> state \<Rightarrow> error option \<times> state" where
  "update_db col v s =
     (let (e, h) = update_loop (lastQuery s) (records s) col v (heap s)
      in (e, s\<lparr>heap := h\<rparr>))"

definition whereIndexed :: "int \<Rightarrow> state \<Rightarrow> state" where
  "whereIndexed index s =
     (case map_get (records s) index of
        None \<Rightarrow> s
      | Some d \<Rightarrow> s\<lparr>lastQuery := map_set index d (lastQuery s)\<rparr>)"

fun where_loop :: "jsmap \<Rightarrow> obj list \<Rightarrow> string \<Rightarrow> jsval \<Rightarrow> jsmap \<Rightarrow> jsmap" where
  "where_loop [] h col v q = q"
| "where_loop ((k, a) # es) h col v q =
     where_loop es h col v
       (if strict_eq (get_prop (h ! a) col) v then map_set k a q else q)"

text \<open>
  The value given with the column \<^verbatim>\<open>id\<close> is handed on as a number; the keys of the
  records are numbers, so a value that is no number finds nothing.
\<close>

definition where_db :: "string \<Rightarrow> jsval \<Rightarrow> state \<Rightarrow> state" where
  "where_db whereColumn v s =
     (if whereColumn = ''id''
      then (case v of JNum index \<Rightarrow> whereIndexed index s | _ \<Rightarrow> s)
      else s\<lparr>lastQuery := where_loop (records s) (heap s) whereColumn v (lastQuery s)\<rparr>)"

section \<open>The public interface\<close>

text \<open>
  One constructor for each public operation of a Database with its arguments, and what a
  call gives back: the value returned, or the error thrown, together with the state
  the call leaves behind.
\<close>

datatype op =
    Insert nat
  | Find int
  | All
  | Count bool
  | Where string jsval
  | Get
  | First bool
  | Last bool
  | Update string jsval
  | Delete
  | Truncate

datatype outcome =
    Model_Returned "model option"
  | Models_Returned "model list"
  | Number_Returned nat
  | This_Returned
  | Nothing_Returned
  | Thrown error

fun call :: "op \<Rightarrow> state \<Rightarrow> outcome \<times> state" where
  "call (Insert d) s = (let (m, s') = insert_db d s in (Model_Returned (Some m), s'))"
| "call (Find index) s = (let (r, s') = find_db index s in (Model_Returned r, s'))"
| "call All s = (let (ms, s') = all s in (Models_Returned ms, s'))"
| "call (Count scopedSize) s = (Number_Returned (count scopedSize s), s)"
| "call (Where col v) s = (This_Returned, where_db col v s)"
| "call Get s = (let (ms, s') = get s in (Models_Returned ms, s'))"
| "call (First b) s = (let (r, s') = first b s in (Model_Returned r, s'))"
| "call (Last b) s = (let (r, s') = last_db b s in (Model_Returned r, s'))"
| "call (Update col v) s =
     (case update_db col v s of
        (None, s') \<Rightarrow> (This_Returned, s')
      | (Some e, s') \<Rightarrow> (Thrown e, s'))"
| "call Delete s = (let (n, s') = delete_db s in (Number_Returned n, s'))"
| "call Truncate s = (Nothing_Returned, truncate_db s)"

text \<open>A sequence of calls, each on the state the one before it left.\<close>

fun run :: "op list \<Rightarrow> state \<Rightarrow> state" where
  "run [] s = s"
| "run (c # cs) s = run cs (snd (call c s))"

text \<open>The Models a call hands to its caller.\<close>

fun models_of :: "outcome \<Rightarrow> model list" where
  "models_of (Model_Returned None) = []"
| "models_of (Model_Returned (Some m)) = [m]"
| "models_of (Models_Returned ms) = ms"
| "models_of _ = []"

section \<open>Notions the specification uses\<close>

text \<open>The identities of the Record Collection and of the Query Scope.\<close>

definition record_ids :: "state \<Rightarrow> int set" where
  "record_ids s = fst ` set (records s)"

definition scope_ids :: "state \<Rightarrow> int set" where
  "scope_ids s = fst ` set (lastQuery s)"

text \<open>
  The full-collection matches of a filter: the entries of the Record Collection whose
  column is strictly equal to the value.
\<close>

definition matching :: "state \<Rightarrow> string \<Rightarrow> jsval \<Rightarrow> jsmap" where
  "matching s col v =
     filter (\<lambda>(k, a). strict_eq (get_prop (heap s ! a) col) v) (records s)"

text \<open>
  What the built-in Map and the references guarantee of a state: keys are unique, the
  entries of the Query Scope are entries of the Record Collection, no identity is above
  the counter, and every stored reference is to an object of the store.
\<close>

definition unique_keys :: "state \<Rightarrow> bool" where
  "unique_keys s \<longleftrightarrow> distinct (map fst (records s)) \<and> distinct (map fst (lastQuery s))"

definition scope_of_records :: "state \<Rightarrow> bool" where
  "scope_of_records s \<longleftrightarrow> set (lastQuery s) \<subseteq> set (records s)"

definition ids_assigned :: "state \<Rightarrow> bool" where
  "ids_assigned s \<longleftrightarrow>
     0 \<le> autoincrement s \<and> list_all (\<lambda>(k, a). 0 < k \<and> k \<le> autoincrement s) (records s)"

text \<open>
  The first three together; they hold in every state that a sequence of calls reaches
  from a new Database.
\<close>

definition consistent :: "state \<Rightarrow> bool" where
  "consistent s \<longleftrightarrow> unique_keys s \<and> scope_of_records s \<and> ids_assigned s"

definition refs_valid :: "state \<Rightarrow> bool" where
  "refs_valid s \<longleftrightarrow>
     list_all (\<lambda>(k, a). a < length (heap s)) (records s) \<and>
     list_all (\<lambda>(k, a). a < length (heap s)) (lastQuery s)"

text \<open>
  The argument of a call is valid: the definition handed to \<^verbatim>\<open>insert\<close> is an object of
  the store.
\<close>

definition args_valid :: "op \<Rightarrow> state \<Rightarrow> bool" where
  "args_valid c s = (case c of Insert d \<Rightarrow> d < length (heap s) | _ \<Rightarrow> True)"

text \<open>A caller's assignments to fields of Models, one after the other.\<close>

fun assign_all :: "(model \<times> string \<times> jsval) list \<Rightarrow> state \<Rightarrow> state" where
  "assign_all [] s = s"
| "assign_all ((m, k, v) # as) s = assign_all as (model_set m k v s)"

section \<open>A small library\<close>

text \<open>Three books of 10, 20 and 30 pages, inserted in this order into a new Database.\<close>

definition book :: "int \<Rightarrow> obj" where
  "book p = [''pages'' \<mapsto> JNum p]"

definition library :: state where
  "library = run [Insert 0, Insert 1, Insert 2] (fresh [book 10, book 20, book 30])"

text \<open>A new Database into which the book of 10 pages has been inserted.\<close>

definition one_book :: state where
  "one_book = snd (insert_db 0 (fresh [book 10]))"

text \<open>
  A state that no sequence of calls reaches: the scope still has identity 1, and the
  record of identity 1 is gone.
\<close>

definition stale_scope :: state where
  "stale_scope = \<lparr>heap = [book 10], autoincrement = 1, records = [], lastQuery = [(1, 0)]\<rparr>"

section \<open>Lemmas about the operations\<close>

subsection \<open>createFromTemplate and instantiate\<close>

lemma createFromTemplate_db [simp]:
  "records (snd (createFromTemplate d i s)) = records s"
  "lastQuery (snd (createFromTemplate d i s)) = lastQuery s"
  "autoincrement (snd (createFromTemplate d i s)) = autoincrement s"
  by (simp_all add: createFromTemplate_def Let_def)

lemma createFromTemplate_heap [simp]:
  "heap (snd (createFromTemplate d i s)) =
     heap s @ [object_assign [''id'' \<mapsto> JNum i] (heap s ! d)]"
  by (simp add: createFromTemplate_def Let_def)

lemma createFromTemplate_model [simp]:
  "backing (fst (createFromTemplate d i s)) = length (heap s)"
  "model_id (fst (createFromTemplate d i s)) =
     get_prop (object_assign [''id'' \<mapsto> JNum i] (heap s ! d)) ''id''"
  by (simp_all add: createFromTemplate_def new_Model_def Let_def)

lemma instantiate_db [simp]:
  "records (snd (instantiate es ms s)) = records s"
  "lastQuery (snd (instantiate es ms s)) = lastQuery s"
  "autoincrement (snd (instantiate es ms s)) = autoincrement s"
  by (induction es ms s rule: instantiate.induct; simp add: split_def Let_def)+

lemma instantiate_heap:
  "\<exists>ext. heap (snd (instantiate es ms s)) = heap s @ ext \<and> length ext = length es"
proof (induction es ms s rule: instantiate.induct)
  case (1 models s)
  then show ?case by simp
next
  case (2 index d es models s)
  obtain m s' where c: "createFromTemplate d index s = (m, s')"
    by (cases "createFromTemplate d index s")
  from 2 [OF c [symmetric] refl] obtain ext where
    e: "heap (snd (instantiate es (models @ [m]) s')) = heap s' @ ext" "length ext = length es"
    by blast
  have "heap s' = heap s @ [object_assign [''id'' \<mapsto> JNum index] (heap s ! d)]"
    using createFromTemplate_heap [of d index s] c by simp
  with e c show ?case by simp
qed

lemma instantiate_models:
  "set (fst (instantiate es ms s)) \<subseteq> set ms \<union> {m. length (heap s) \<le> backing m}"
proof (induction es ms s rule: instantiate.induct)
  case (1 models s)
  then show ?case by simp
next
  case (2 index d es models s)
  obtain m s' where c: "createFromTemplate d index s = (m, s')"
    by (cases "createFromTemplate d index s")
  have m: "backing m = length (heap s)"
    using createFromTemplate_model(1) [of d index s] c by simp
  have h: "length (heap s) \<le> length (heap s')"
    using createFromTemplate_heap [of d index s] c by simp
  from 2 [OF c [symmetric] refl]
  have "set (fst (instantiate es (models @ [m]) s')) \<subseteq>
          set (models @ [m]) \<union> {m. length (heap s') \<le> backing m}" .
  with m h c show ?case by (auto simp: subset_iff)
qed

subsection \<open>Association lists with unique keys\<close>

lemma update_fresh_key: "k \<notin> fst ` set al \<Longrightarrow> AList.update k v al = al @ [(k, v)]"
  by (induction al) auto

lemma update_same_value:
  "\<forall>v'. (k, v') \<in> set al \<longrightarrow> v' = v \<Longrightarrow> set (AList.update k v al) = insert (k, v) (set al)"
  by (induction al) auto

lemma set_update_subset: "set (AList.update k v al) \<subseteq> insert (k, v) (set al)"
  by (induction al) auto

lemma unique_value:
  "distinct (map fst al) \<Longrightarrow> (k, v) \<in> set al \<Longrightarrow> (k, v') \<in> set al \<Longrightarrow> v = v'"
  by (meson eq_key_imp_eq_value)

lemma delete_as_filter: "AList.delete k al = filter (\<lambda>(k', a). k' \<noteq> k) al"
  by (induction al) auto

lemma length_delete_present:
  "distinct (map fst al) \<Longrightarrow> k \<in> fst ` set al \<Longrightarrow> Suc (length (AList.delete k al)) = length al"
proof (induction al)
  case Nil
  then show ?case by simp
next
  case (Cons p al)
  show ?case
  proof (cases "fst p = k")
    case True
    with Cons.prems have "k \<notin> fst ` set al" by auto
    with True show ?thesis by (cases p) simp
  next
    case False
    with Cons show ?thesis by (cases p) auto
  qed
qed

subsection \<open>The loop of where\<close>

lemma where_loop_keys:
  "fst ` set (where_loop es h col v q) =
     fst ` set q \<union> fst ` set (filter (\<lambda>(k, a). strict_eq (get_prop (h ! a) col) v) es)"
  by (induction es h col v q rule: where_loop.induct)
     (auto simp: map_set_def dom_update)

lemma where_loop_distinct:
  "distinct (map fst q) \<Longrightarrow> distinct (map fst (where_loop es h col v q))"
  by (induction es h col v q rule: where_loop.induct)
     (auto simp: map_set_def distinct_update)

lemma where_loop_set:
  assumes "distinct (map fst recs)" and "set q \<subseteq> set recs" and "set es \<subseteq> set recs"
  shows "set (where_loop es h col v q) =
           set q \<union> set (filter (\<lambda>(k, a). strict_eq (get_prop (h ! a) col) v) es)"
  using assms(2,3)
proof (induction es arbitrary: q)
  case Nil
  then show ?case by simp
next
  case (Cons e es)
  obtain k a where e: "e = (k, a)" by (cases e)
  show ?case
  proof (cases "strict_eq (get_prop (h ! a) col) v")
    case True
    have in_recs: "(k, a) \<in> set recs" using Cons.prems(2) e by simp
    have "\<forall>a'. (k, a') \<in> set q \<longrightarrow> a' = a"
      using unique_value [OF assms(1) _ in_recs] Cons.prems(1) by blast
    then have upd: "set (AList.update k a q) = insert (k, a) (set q)"
      by (rule update_same_value)
    with in_recs Cons.prems(1) have sub: "set (AList.update k a q) \<subseteq> set recs" by simp
    have "set (where_loop es h col v (AList.update k a q)) =
            set (AList.update k a q) \<union>
            set (filter (\<lambda>(k, a). strict_eq (get_prop (h ! a) col) v) es)"
      using Cons.IH [OF sub] Cons.prems(2) by simp
    with True e upd show ?thesis by (simp add: map_set_def)
  next
    case False
    with Cons e show ?thesis by simp
  qed
qed

lemma where_loop_subset: "set (where_loop es h col v q) \<subseteq> set q \<union> set es"
proof (induction es arbitrary: q)
  case Nil
  then show ?case by simp
next
  case (Cons e es)
  obtain k a where e: "e = (k, a)" by (cases e)
  show ?case
  proof (cases "strict_eq (get_prop (h ! a) col) v")
    case True
    have "set (where_loop es h col v (AList.update k a q)) \<subseteq>
        set (AList.update k a q) \<union> set es"
      by (rule Cons.IH)
    with set_update_subset [of k a q] True e show ?thesis
      by (auto simp: map_set_def)
  next
    case False
    with Cons.IH [of q] e show ?thesis by auto
  qed
qed

subsection \<open>The loop of delete\<close>

lemma delete_loop_records:
  "fst (delete_loop es recs n) = filter (\<lambda>(k, a). k \<notin> fst ` set es) recs"
proof (induction es recs n rule: delete_loop.induct)
  case (1 recs n)
  then show ?case by simp
next
  case (2 k a es recs n)
  have "filter (\<lambda>(k', a). k' \<notin> fst ` set es) (filter (\<lambda>(k', a). k' \<noteq> k) recs) =
          filter (\<lambda>(k', a'). k' \<notin> fst ` set ((k, a) # es)) recs"
    by (induction recs) auto
  with 2 show ?case
    by (simp add: map_delete_def delete_as_filter)
qed

lemma delete_loop_count:
  "distinct (map fst recs) \<Longrightarrow>
     snd (delete_loop es recs n) + length (fst (delete_loop es recs n)) = n + length recs"
proof (induction es arbitrary: recs n)
  case Nil
  then show ?case by simp
next
  case (Cons e es)
  obtain k a where e: "e = (k, a)" by (cases e)
  have d: "distinct (map fst (AList.delete k recs))"
    using Cons.prems by (rule distinct_delete)
  note IH = Cons.IH [OF d]
  show ?case
  proof (cases "k \<in> fst ` set recs")
    case True
    with e IH [of "n + 1"] length_delete_present [OF Cons.prems True] show ?thesis
      by (simp add: map_delete_def)
  next
    case False
    with e IH [of n] show ?thesis
      by (simp add: map_delete_def)
  qed
qed

lemma delete_loop_empty_scope: "delete_loop [] recs n = (recs, n)"
  by simp

subsection \<open>Writing a property\<close>

lemma length_set_prop [simp]: "length (set_prop a k v h) = length h"
  by (simp add: set_prop_def)

lemma nth_set_prop:
  "(set_prop a k v h ! x) k' =
     (if x = a \<and> a < length h \<and> k' = k then Some v else (h ! x) k')"
  by (cases "a < length h") (auto simp: set_prop_def nth_list_update list_update_beyond)

lemma nth_set_prop_other: "x \<noteq> a \<Longrightarrow> set_prop a k v h ! x = h ! x"
  by (simp add: set_prop_def)

subsection \<open>The loop of update\<close>

lemma update_loop_length [simp]:
  "length (snd (update_loop es recs col v h)) = length h"
  by (induction es recs col v h rule: update_loop.induct)
     (auto split: option.splits)

lemma update_loop_no_error:
  "fst ` set es \<subseteq> fst ` set recs \<Longrightarrow> fst (update_loop es recs col v h) = None"
proof (induction es arbitrary: h)
  case Nil
  then show ?case by simp
next
  case (Cons e es)
  obtain k a where e: "e = (k, a)" by (cases e)
  with Cons.prems have "k \<in> fst ` set recs" by simp
  then obtain d where "map_of recs k = Some d"
    by (metis domD dom_map_of_conv_image_fst)
  with Cons e show ?case by (simp add: map_get_def)
qed

lemma update_loop_error:
  "\<not> fst ` set es \<subseteq> fst ` set recs \<Longrightarrow>
     \<exists>k. fst (update_loop es recs col v h) = Some (Error k) \<and>
         k \<in> fst ` set es \<and> k \<notin> fst ` set recs"
proof (induction es arbitrary: h)
  case Nil
  then show ?case by simp
next
  case (Cons e es)
  obtain k a where e: "e = (k, a)" by (cases e)
  show ?case
  proof (cases "map_of recs k")
    case None
    then have "k \<notin> fst ` set recs"
      by (simp add: map_of_eq_None_iff)
    with None e show ?thesis by (auto simp: map_get_def)
  next
    case (Some d)
    then have "k \<in> fst ` set recs"
      by (metis domI dom_map_of_conv_image_fst)
    with Cons.prems e have "\<not> fst ` set es \<subseteq> fst ` set recs" by simp
    from Cons.IH [OF this, of "set_prop d col v (set_prop a col v h)"]
    obtain k' where "fst (update_loop es recs col v (set_prop d col v (set_prop a col v h))) =
        Some (Error k')" "k' \<in> fst ` set es" "k' \<notin> fst ` set recs"
      by blast
    with Some e show ?thesis
      by (auto simp: map_get_def)
  qed
qed

lemma update_loop_keeps:
  "x < length h \<Longrightarrow> (h ! x) col = Some v \<Longrightarrow>
     (snd (update_loop es recs col v h) ! x) col = Some v"
proof (induction es arbitrary: h)
  case Nil
  then show ?case by simp
next
  case (Cons e es)
  obtain k a where e: "e = (k, a)" by (cases e)
  show ?case
  proof (cases "map_of recs k")
    case None
    with Cons.prems e show ?thesis by (simp add: map_get_def)
  next
    case (Some d)
    let ?h2 = "set_prop d col v (set_prop a col v h)"
    have "x < length ?h2" using Cons.prems by simp
    moreover have "(?h2 ! x) col = Some v"
      using Cons.prems by (simp add: nth_set_prop)
    ultimately have "(snd (update_loop es recs col v ?h2) ! x) col = Some v"
      by (rule Cons.IH)
    with Some e show ?thesis by (simp add: map_get_def)
  qed
qed

lemma update_loop_sets:
  assumes "fst (update_loop es recs col v h) = None" and "(k, a) \<in> set es"
  shows "(a < length h \<longrightarrow> (snd (update_loop es recs col v h) ! a) col = Some v) \<and>
         (\<exists>d. map_of recs k = Some d \<and>
              (d < length h \<longrightarrow> (snd (update_loop es recs col v h) ! d) col = Some v))"
  using assms
proof (induction es arbitrary: h)
  case Nil
  then show ?case by simp
next
  case (Cons e es)
  obtain k' a' where e: "e = (k', a')" by (cases e)
  from Cons.prems(1) e obtain d' where d': "map_of recs k' = Some d'"
    by (cases "map_of recs k'") (auto simp: map_get_def)
  let ?h2 = "set_prop d' col v (set_prop a' col v h)"
  have step: "update_loop (e # es) recs col v h = update_loop es recs col v ?h2"
    using e d' by (simp add: map_get_def)
  have ok: "fst (update_loop es recs col v ?h2) = None"
    using Cons.prems(1) step by simp
  show ?case
  proof (cases "(k, a) = (k', a')")
    case True
    have 1: "a' < length h \<longrightarrow> (?h2 ! a') col = Some v"
      by (simp add: nth_set_prop)
    have 2: "d' < length h \<longrightarrow> (?h2 ! d') col = Some v"
      by (simp add: nth_set_prop)
    from 1 have "a' < length h \<longrightarrow> (snd (update_loop es recs col v ?h2) ! a') col = Some v"
      using update_loop_keeps [of a' ?h2 col v es recs] by simp
    moreover
    from 2 have "d' < length h \<longrightarrow> (snd (update_loop es recs col v ?h2) ! d') col = Some v"
      using update_loop_keeps [of d' ?h2 col v es recs] by simp
    ultimately show ?thesis using True d' step by simp
  next
    case False
    with Cons.prems(2) e have "(k, a) \<in> set es" by auto
    from Cons.IH [OF ok this] step show ?thesis by simp
  qed
qed

lemma update_loop_other_column:
  "col' \<noteq> col \<Longrightarrow> (snd (update_loop es recs col v h) ! x) col' = (h ! x) col'"
proof (induction es arbitrary: h)
  case Nil
  then show ?case by simp
next
  case (Cons e es)
  obtain k a where e: "e = (k, a)" by (cases e)
  show ?case
  proof (cases "map_of recs k")
    case None
    with e show ?thesis by (simp add: map_get_def)
  next
    case (Some d)
    let ?h2 = "set_prop d col v (set_prop a col v h)"
    have "(?h2 ! x) col' = (h ! x) col'"
      using Cons.prems by (simp add: nth_set_prop)
    with Cons.IH [OF Cons.prems, of ?h2] Some e show ?thesis
      by (simp add: map_get_def)
  qed
qed

subsection \<open>What each operation does to the fields of the state\<close>

lemma insert_db_fields [simp]:
  "autoincrement (snd (insert_db d s)) = autoincrement s + 1"
  "records (snd (insert_db d s)) = AList.update (autoincrement s + 1) d (records s)"
  "lastQuery (snd (insert_db d s)) = lastQuery s"
  "heap (snd (insert_db d s)) =
     heap s @ [object_assign [''id'' \<mapsto> JNum (autoincrement s + 1)] (heap s ! d)]"
  "backing (fst (insert_db d s)) = length (heap s)"
  "model_id (fst (insert_db d s)) =
     get_prop (object_assign [''id'' \<mapsto> JNum (autoincrement s + 1)] (heap s ! d)) ''id''"
  by (simp_all add: insert_db_def map_set_def Let_def)

lemma find_db_fields [simp]:
  "autoincrement (snd (find_db i s)) = autoincrement s"
  "records (snd (find_db i s)) = records s"
  "lastQuery (snd (find_db i s)) = lastQuery s"
  by (simp_all add: find_db_def split_def Let_def split: option.splits)

lemma all_fields [simp]:
  "autoincrement (snd (all s)) = autoincrement s"
  "records (snd (all s)) = records s"
  "lastQuery (snd (all s)) = lastQuery s"
  by (simp_all add: all_def)

lemma get_fields [simp]:
  "autoincrement (snd (get s)) = autoincrement s"
  "records (snd (get s)) = records s"
  "lastQuery (snd (get s)) = []"
  by (simp_all add: get_def split_def Let_def)

lemma first_fields [simp]:
  "autoincrement (snd (first b s)) = autoincrement s"
  "records (snd (first b s)) = records s"
  by (simp_all add: first_def split_def Let_def split: list.splits)

lemma first_lastQuery:
  "lastQuery (snd (first b s)) =
     (if switchRecordsRetrieval b s = [] then lastQuery s else [])"
  by (simp add: first_def split_def Let_def split: list.splits)

lemma last_db_fields [simp]:
  "autoincrement (snd (last_db b s)) = autoincrement s"
  "records (snd (last_db b s)) = records s"
  by (simp_all add: last_db_def split_def Let_def split: option.splits)

lemma last_db_lastQuery:
  "lastQuery (snd (last_db b s)) =
     (if map_of (switchRecordsRetrieval b s) (autoincrement s) = None then lastQuery s else [])"
  by (auto simp add: last_db_def map_get_def split_def Let_def split: option.splits)

lemma where_db_fields [simp]:
  "autoincrement (where_db col v s) = autoincrement s"
  "records (where_db col v s) = records s"
  "heap (where_db col v s) = heap s"
  by (simp_all add: where_db_def whereIndexed_def split: jsval.splits option.splits)

lemma update_db_fields [simp]:
  "autoincrement (snd (update_db col v s)) = autoincrement s"
  "records (snd (update_db col v s)) = records s"
  "lastQuery (snd (update_db col v s)) = lastQuery s"
  "heap (snd (update_db col v s)) =
     snd (update_loop (lastQuery s) (records s) col v (heap s))"
  "fst (update_db col v s) = fst (update_loop (lastQuery s) (records s) col v (heap s))"
  by (simp_all add: update_db_def split_def Let_def)

lemma delete_db_fields [simp]:
  "autoincrement (snd (delete_db s)) = autoincrement s"
  "records (snd (delete_db s)) = filter (\<lambda>(k, a). k \<notin> fst ` set (lastQuery s)) (records s)"
  "lastQuery (snd (delete_db s)) = []"
  "heap (snd (delete_db s)) = heap s"
  using delete_loop_records [of "lastQuery s" "records s" 0]
  by (simp_all add: delete_db_def split_def Let_def)

lemma truncate_db_fields [simp]:
  "autoincrement (truncate_db s) = autoincrement s"
  "records (truncate_db s) = []"
  "lastQuery (truncate_db s) = []"
  "heap (truncate_db s) = heap s"
  by (simp_all add: truncate_db_def)

lemma call_state:
  "snd (call (Insert d) s) = snd (insert_db d s)"
  "snd (call (Find i) s) = snd (find_db i s)"
  "snd (call All s) = snd (all s)"
  "snd (call (Count b) s) = s"
  "snd (call (Where col v) s) = where_db col v s"
  "snd (call Get s) = snd (get s)"
  "snd (call (First b) s) = snd (first b s)"
  "snd (call (Last b) s) = snd (last_db b s)"
  "snd (call (Update col v) s) = snd (update_db col v s)"
  "snd (call Delete s) = snd (delete_db s)"
  "snd (call Truncate s) = truncate_db s"
  by (simp_all add: split_def Let_def split: option.splits prod.splits)

lemma where_db_scope_subset:
  "set (lastQuery (where_db col v s)) \<subseteq> set (lastQuery s) \<union> set (records s)"
proof (cases "col = ''id''")
  case False
  then show ?thesis by (simp add: where_db_def where_loop_subset)
next
  case True
  show ?thesis
  proof (cases v)
    case (JNum i)
    show ?thesis
    proof (cases "map_of (records s) i")
      case None
      with True JNum show ?thesis by (simp add: where_db_def whereIndexed_def map_get_def)
    next
      case (Some d)
      then have "(i, d) \<in> set (records s)" by (rule map_of_SomeD)
      with set_update_subset [of i d "lastQuery s"] True JNum Some show ?thesis
        by (auto simp: where_db_def whereIndexed_def map_get_def map_set_def)
    qed
  qed (use True in \<open>simp_all add: where_db_def\<close>)
qed

subsection \<open>The identity counter\<close>

lemma call_autoincrement:
  "autoincrement (snd (call c s)) =
     (case c of Insert d \<Rightarrow> autoincrement s + 1 | _ \<Rightarrow> autoincrement s)"
  by (cases c) (simp_all only: call_state op.case insert_db_fields find_db_fields all_fields
      where_db_fields get_fields first_fields last_db_fields update_db_fields
      delete_db_fields truncate_db_fields)

lemma run_autoincrement_mono: "autoincrement s \<le> autoincrement (run cs s)"
proof (induction cs arbitrary: s)
  case Nil
  then show ?case by simp
next
  case (Cons c cs)
  have "autoincrement s \<le> autoincrement (snd (call c s))"
    by (simp add: call_autoincrement split: op.splits)
  also have "\<dots> \<le> autoincrement (run cs (snd (call c s)))"
    by (rule Cons.IH)
  finally show ?case by simp
qed

subsection \<open>What every reachable state satisfies\<close>

lemma consistent_fresh: "consistent (fresh h)"
  by (simp add: consistent_def unique_keys_def scope_of_records_def ids_assigned_def fresh_def)

lemma where_db_scope_set:
  assumes "col \<noteq> ''id''" and "unique_keys s" and "scope_of_records s"
  shows "set (lastQuery (where_db col v s)) = set (lastQuery s) \<union> set (matching s col v)"
  using assms where_loop_set [of "records s" "lastQuery s" "records s" "heap s" col v]
  by (simp add: where_db_def matching_def unique_keys_def scope_of_records_def)

lemma matching_where_db [simp]: "matching (where_db col v s) col' v' = matching s col' v'"
  by (simp add: matching_def)

lemma where_db_keeps_consistency:
  assumes "unique_keys s" and "scope_of_records s"
  shows "unique_keys (where_db col v s) \<and> scope_of_records (where_db col v s)"
proof (cases "col = ''id''")
  case False
  have "set (matching s col v) \<subseteq> set (records s)" by (auto simp: matching_def)
  with where_db_scope_set [OF False assms, of v] assms(2)
  have "scope_of_records (where_db col v s)" by (simp add: scope_of_records_def)
  moreover have "unique_keys (where_db col v s)"
    using assms(1) False by (simp add: unique_keys_def where_db_def where_loop_distinct)
  ultimately show ?thesis by simp
next
  case True
  show ?thesis
  proof (cases v)
    case (JNum i)
    show ?thesis
    proof (cases "map_of (records s) i")
      case None
      with True JNum assms show ?thesis
        by (simp add: where_db_def whereIndexed_def map_get_def unique_keys_def
            scope_of_records_def)
    next
      case (Some d)
      then have in_recs: "(i, d) \<in> set (records s)" by (rule map_of_SomeD)
      have "\<forall>d'. (i, d') \<in> set (lastQuery s) \<longrightarrow> d' = d"
        using unique_value [OF _ _ in_recs] assms
        by (auto simp: unique_keys_def scope_of_records_def)
      then have "set (AList.update i d (lastQuery s)) = insert (i, d) (set (lastQuery s))"
        by (rule update_same_value)
      with True JNum Some in_recs assms show ?thesis
        by (simp add: where_db_def whereIndexed_def map_get_def map_set_def unique_keys_def
            scope_of_records_def distinct_update)
    qed
  qed (use True assms in \<open>simp_all add: where_db_def unique_keys_def scope_of_records_def\<close>)
qed

lemma where_db_consistent: "consistent s \<Longrightarrow> consistent (where_db col v s)"
  using where_db_keeps_consistency [of s col v]
  by (simp add: consistent_def ids_assigned_def)

lemma insert_db_consistent:
  assumes "consistent s"
  shows "consistent (snd (insert_db d s))"
proof -
  from assms have u: "distinct (map fst (records s))" "distinct (map fst (lastQuery s))"
    and sub: "set (lastQuery s) \<subseteq> set (records s)"
    and nonneg: "0 \<le> autoincrement s"
    and ids: "\<forall>(k, a) \<in> set (records s). 0 < k \<and> k \<le> autoincrement s"
    by (simp_all add: consistent_def unique_keys_def scope_of_records_def ids_assigned_def
        list_all_iff)
  from ids have new: "autoincrement s + 1 \<notin> fst ` set (records s)" by force
  have recs: "AList.update (autoincrement s + 1) d (records s) =
      records s @ [(autoincrement s + 1, d)]"
    using new by (rule update_fresh_key)
  from ids have ids': "\<forall>(k, a) \<in> set (records s). 0 < k \<and> k \<le> autoincrement s + 1"
    by force
  have "unique_keys (snd (insert_db d s))"
    using u new recs by (simp add: unique_keys_def)
  moreover have "scope_of_records (snd (insert_db d s))"
    using sub recs by (auto simp: scope_of_records_def)
  moreover have "ids_assigned (snd (insert_db d s))"
    using ids' nonneg recs by (simp add: ids_assigned_def list_all_iff)
  ultimately show ?thesis by (simp add: consistent_def)
qed

lemma delete_db_consistent:
  assumes "consistent s"
  shows "consistent (snd (delete_db s))"
  using assms
  by (auto simp: consistent_def unique_keys_def scope_of_records_def ids_assigned_def
      list_all_iff distinct_map_filter)

lemma truncate_db_consistent: "consistent s \<Longrightarrow> consistent (truncate_db s)"
  by (simp add: consistent_def unique_keys_def scope_of_records_def ids_assigned_def)

lemma consistent_cong:
  assumes "consistent s"
    and "records s' = records s" and "autoincrement s' = autoincrement s"
    and "lastQuery s' = lastQuery s \<or> lastQuery s' = []"
  shows "consistent s'"
  using assms
  by (auto simp: consistent_def unique_keys_def scope_of_records_def ids_assigned_def)

lemma call_consistent:
  assumes "consistent s"
  shows "consistent (snd (call c s))"
proof (cases c)
  case (Insert d)
  with assms show ?thesis by (simp only: call_state insert_db_consistent)
next
  case (Find i)
  then show ?thesis
    by (simp only: call_state) (rule consistent_cong [OF assms], simp_all)
next
  case All
  then show ?thesis
    by (simp only: call_state) (rule consistent_cong [OF assms], simp_all)
next
  case (Count b)
  with assms show ?thesis by (simp only: call_state)
next
  case (Where col v)
  with assms show ?thesis by (simp only: call_state where_db_consistent)
next
  case Get
  then show ?thesis
    by (simp only: call_state) (rule consistent_cong [OF assms], simp_all)
next
  case (First b)
  then show ?thesis
    by (simp only: call_state) (rule consistent_cong [OF assms], simp_all add: first_lastQuery)
next
  case (Last b)
  then show ?thesis
    by (simp only: call_state) (rule consistent_cong [OF assms], simp_all add: last_db_lastQuery)
next
  case (Update col v)
  then show ?thesis
    by (simp only: call_state) (rule consistent_cong [OF assms], simp_all)
next
  case Delete
  with assms show ?thesis by (simp only: call_state delete_db_consistent)
next
  case Truncate
  with assms show ?thesis by (simp only: call_state truncate_db_consistent)
qed

lemma run_consistent: "consistent s \<Longrightarrow> consistent (run cs s)"
  by (induction cs arbitrary: s) (simp_all add: call_consistent del: call.simps)

lemma run_append: "run (cs @ cs') s = run cs' (run cs s)"
  by (induction cs arbitrary: s) simp_all

lemma consistent_scope_ids: "consistent s \<Longrightarrow> scope_ids s \<subseteq> record_ids s"
  by (auto simp: consistent_def scope_of_records_def scope_ids_def record_ids_def)

section \<open>The small library, evaluated\<close>

lemma library_fields:
  "records library = [(1, 0), (2, 1), (3, 2)]"
  "lastQuery library = []"
  "autoincrement library = 3"
  "length (heap library) = 6"
  by (simp_all add: library_def fresh_def call_state del: call.simps)

lemma library_heap:
  "heap library ! 0 = book 10"
  "heap library ! Suc 0 = book 20"
  "heap library ! 2 = book 30"
  by (simp_all add: library_def fresh_def call_state nth_append del: call.simps)

lemma library_consistent: "consistent library"
  unfolding library_def by (rule run_consistent [OF consistent_fresh])

lemma library_pages_10:
  "lastQuery (where_db ''pages'' (JNum 10) library) = [(1, 0)]"
  by (simp add: where_db_def library_fields library_heap book_def get_prop_def map_set_def)

section \<open>Filtering on the identity\<close>

text \<open>
  Claim C1, as amended. \<^verbatim>\<open>where("id", v)\<close> looks the identity \<open>v\<close> up in the Record
  Collection directly. When it is found, the entry is set in the Query Scope that is
  there: the scope afterwards maps \<open>v\<close> to the stored record and every other identity to
  what it was mapped to before, so its identities are those it had together with \<open>v\<close>.
  When it is not found, the Query Scope stays as it was. The Record Collection is not
  changed.
\<close>

theorem where_id_adds_to_scope:
  "records (where_db ''id'' (JNum i) s) = records s \<and>
   (case map_of (records s) i of
      None \<Rightarrow> lastQuery (where_db ''id'' (JNum i) s) = lastQuery s
    | Some d \<Rightarrow>
        map_of (lastQuery (where_db ''id'' (JNum i) s)) = (map_of (lastQuery s))(i \<mapsto> d) \<and>
        scope_ids (where_db ''id'' (JNum i) s) = insert i (scope_ids s))"
  by (simp add: where_db_def whereIndexed_def map_get_def map_set_def scope_ids_def
      update_conv' dom_update split: option.splits)

text \<open>
  In the library, with the book of 10 pages selected, filtering on identity 2 gives a
  scope of the identities 1 and 2.
\<close>

theorem where_id_adds_to_scope_witness:
  "map_of (records (where_db ''pages'' (JNum 10) library)) 2 = Some 1 \<and>
   scope_ids (where_db ''pages'' (JNum 10) library) = {1} \<and>
   scope_ids (where_db ''id'' (JNum 2) (where_db ''pages'' (JNum 10) library)) = {1, 2}"
  using where_id_adds_to_scope [of 2 "where_db ''pages'' (JNum 10) library"]
  by (auto simp add: library_fields library_pages_10 scope_ids_def)

text \<open>
  Claim C1 as stated fails there: the scope is not replaced by the single entry of
  identity 2, the entry of identity 1 is still in it.
\<close>

theorem where_id_replaces_scope_counterexample:
  "lastQuery (where_db ''pages'' (JNum 10) library) = [(1, 0)] \<and>
   lastQuery (where_db ''id'' (JNum 2) (where_db ''pages'' (JNum 10) library)) =
     [(1, 0), (2, 1)] \<and>
   lastQuery (where_db ''id'' (JNum 2) (where_db ''pages'' (JNum 10) library)) \<noteq> [(2, 1)]"
  by (simp add: where_db_def whereIndexed_def map_get_def map_set_def
      library_fields library_heap book_def get_prop_def)

section \<open>Clearing the Query Scope in first and last\<close>

text \<open>
  \<^verbatim>\<open>first\<close> leaves an empty Query Scope in every consistent state: it returns early
  only when the map it reads is empty, and then the scope is empty too. \<^verbatim>\<open>last\<close>
  leaves an empty scope exactly when the scope was empty or the map it reads has the
  identity of the counter.
\<close>

lemma first_clears_scope:
  "consistent s \<Longrightarrow> lastQuery (snd (first b s)) = []"
  by (cases b)
     (auto simp: first_lastQuery switchRecordsRetrieval_def consistent_def scope_of_records_def)

lemma last_db_clears_scope_iff:
  "lastQuery (snd (last_db b s)) = [] \<longleftrightarrow>
     lastQuery s = [] \<or> autoincrement s \<in> fst ` set (switchRecordsRetrieval b s)"
  by (auto simp: last_db_lastQuery map_of_eq_None_iff)

text \<open>
  Claim C2: after \<^verbatim>\<open>first\<close> or \<^verbatim>\<open>last\<close> the Query Scope is empty, whatever was
  returned. The code of \<^verbatim>\<open>last\<close> does not do this. In the library, with the book of
  10 pages selected, \<^verbatim>\<open>last(true)\<close> looks identity 3 up in the scope, returns the
  empty result before the scope is cleared, and the scope still holds identity 1.
\<close>

theorem last_leaves_scope_on_empty_result:
  "lastQuery (where_db ''pages'' (JNum 10) library) = [(1, 0)] \<and>
   fst (last_db True (where_db ''pages'' (JNum 10) library)) = None \<and>
   lastQuery (snd (last_db True (where_db ''pages'' (JNum 10) library))) = [(1, 0)]"
  by (simp add: last_db_def switchRecordsRetrieval_def map_get_def library_pages_10
      library_fields)

section \<open>Repeated filters\<close>

text \<open>
  Claim C3. For two calls \<^verbatim>\<open>where(c1, v1)\<close> and then \<^verbatim>\<open>where(c2, v2)\<close> on columns
  other than the identity, in a state whose maps have unique keys and whose scope entries
  are entries of the Record Collection (every reachable state is such a state): the
  Record Collection is unchanged, and the Query Scope afterwards holds what it held before
  together with the full-collection matches of the first call and the full-collection
  matches of the second call. Starting from an empty scope, it is exactly the union of the
  two sets of matches: the second call removes nothing that the first one selected.
\<close>

theorem where_twice_is_union:
  assumes "c1 \<noteq> ''id''" and "c2 \<noteq> ''id''" and "unique_keys s" and "scope_of_records s"
  shows "records (where_db c2 v2 (where_db c1 v1 s)) = records s \<and>
         set (lastQuery (where_db c2 v2 (where_db c1 v1 s))) =
           set (lastQuery s) \<union> set (matching s c1 v1) \<union> set (matching s c2 v2) \<and>
         (lastQuery s = [] \<longrightarrow>
            set (lastQuery (where_db c2 v2 (where_db c1 v1 s))) =
              set (matching s c1 v1) \<union> set (matching s c2 v2))"
proof -
  have first: "set (lastQuery (where_db c1 v1 s)) = set (lastQuery s) \<union> set (matching s c1 v1)"
    using assms(1,3,4) by (rule where_db_scope_set)
  have "unique_keys (where_db c1 v1 s)" "scope_of_records (where_db c1 v1 s)"
    using where_db_keeps_consistency [OF assms(3,4)] by simp_all
  with assms(2)
  have "set (lastQuery (where_db c2 v2 (where_db c1 v1 s))) =
          set (lastQuery (where_db c1 v1 s)) \<union> set (matching (where_db c1 v1 s) c2 v2)"
    by (rule where_db_scope_set)
  with first show ?thesis by simp
qed

text \<open>
  In the library, filtering on 10 pages and then on 30 pages selects the books 1 and 3,
  although no book matches both filters.
\<close>

lemma library_matching:
  "matching library ''pages'' (JNum 10) = [(1, 0)]"
  "matching library ''pages'' (JNum 30) = [(3, 2)]"
  by (simp_all add: matching_def library_fields library_heap book_def get_prop_def)

theorem where_twice_is_union_witness:
  "''pages'' \<noteq> ''id'' \<and> unique_keys library \<and> scope_of_records library \<and>
   lastQuery library = [] \<and>
   set (lastQuery (where_db ''pages'' (JNum 30) (where_db ''pages'' (JNum 10) library))) =
     {(1, 0), (3, 2)} \<and>
   set (matching library ''pages'' (JNum 10)) \<inter> set (matching library ''pages'' (JNum 30)) = {}"
proof -
  have c: "''pages'' \<noteq> ''id''" by simp
  have u: "unique_keys library" and r: "scope_of_records library"
    using library_consistent by (simp_all add: consistent_def)
  from where_twice_is_union [OF c c u r, of "JNum 30" "JNum 10"] c u r
  show ?thesis by (auto simp: library_matching library_fields)
qed

section \<open>Deleting the Query Scope\<close>

lemma delete_db_count:
  "unique_keys s \<Longrightarrow>
     fst (delete_db s) + length (records (snd (delete_db s))) = length (records s)"
  using delete_loop_count [of "records s" "lastQuery s" 0]
  by (simp add: delete_db_def split_def Let_def unique_keys_def)

lemma delete_db_empty_scope: "lastQuery s = [] \<Longrightarrow> fst (delete_db s) = 0"
  by (simp add: delete_db_def)

lemma filter_by_matching_keys:
  assumes "distinct (map fst recs)"
  shows "filter (\<lambda>(k, a). k \<in> fst ` set (filter P recs)) recs = filter P recs"
proof (rule filter_cong [OF refl])
  fix e assume e: "e \<in> set recs"
  obtain k a where ka: "e = (k, a)" by (cases e)
  have "k \<in> fst ` set (filter P recs) \<longleftrightarrow> P (k, a)"
  proof
    assume "k \<in> fst ` set (filter P recs)"
    then obtain a' where a': "(k, a') \<in> set recs" "P (k, a')" by auto
    with e ka unique_value [OF assms] have "a' = a" by blast
    with a' show "P (k, a)" by simp
  next
    assume "P (k, a)"
    with e ka show "k \<in> fst ` set (filter P recs)" by force
  qed
  with ka show "(case e of (k, a) \<Rightarrow> k \<in> fst ` set (filter P recs)) = P e" by simp
qed

lemma where_db_scope_keys:
  "col \<noteq> ''id'' \<Longrightarrow> scope_ids (where_db col v s) = scope_ids s \<union> fst ` set (matching s col v)"
  by (simp add: where_db_def scope_ids_def matching_def where_loop_keys)

lemma delete_after_where:
  assumes "col \<noteq> ''id''" and "unique_keys s" and "lastQuery s = []"
  shows "fst (delete_db (where_db col v s)) = length (matching s col v)"
proof -
  let ?s = "where_db col v s"
  have u: "unique_keys ?s"
    using assms by (simp add: unique_keys_def where_db_def where_loop_distinct)
  have keys: "fst ` set (lastQuery ?s) = fst ` set (matching s col v)"
    using where_db_scope_keys [OF assms(1), of v s] assms(3) by (simp add: scope_ids_def)
  have "length (records s) =
      length (filter (\<lambda>(k, a). k \<in> fst ` set (matching s col v)) (records s)) +
      length (filter (\<lambda>(k, a). k \<notin> fst ` set (matching s col v)) (records s))"
    using sum_length_filter_compl [of "\<lambda>(k, a). k \<in> fst ` set (matching s col v)" "records s"]
    by (simp add: split_def)
  moreover have "filter (\<lambda>(k, a). k \<in> fst ` set (matching s col v)) (records s) =
      matching s col v"
    unfolding matching_def using assms(2)
    by (intro filter_by_matching_keys) (simp add: unique_keys_def)
  ultimately show ?thesis
    using delete_db_count [OF u] keys by simp
qed

lemma keys_filter_not_in:
  "fst ` set (filter (\<lambda>(k, a). k \<notin> K) recs) = fst ` set recs - K"
  by (induction recs) auto

lemma delete_db_record_ids: "record_ids (snd (delete_db s)) = record_ids s - scope_ids s"
  unfolding record_ids_def scope_ids_def delete_db_fields by (rule keys_filter_not_in)

text \<open>
  Claim C8. \<^verbatim>\<open>delete()\<close> removes from the Record Collection exactly the identities of
  the Query Scope: the entries of the other identities stay, in their order. It clears the
  Query Scope whatever it removed, so that a second \<^verbatim>\<open>delete()\<close> right after it returns
  0. With unique keys, the number it returns is the number of records removed. Hence,
  from an empty scope, \<^verbatim>\<open>delete()\<close> after a \<^verbatim>\<open>where\<close> on a column other than the
  identity returns the number of records that matched, and removes those records.
\<close>

theorem delete_removes_scope:
  "records (snd (delete_db s)) = filter (\<lambda>(k, a). k \<notin> scope_ids s) (records s) \<and>
   record_ids (snd (delete_db s)) = record_ids s - scope_ids s \<and>
   lastQuery (snd (delete_db s)) = [] \<and>
   fst (delete_db (snd (delete_db s))) = 0 \<and>
   (unique_keys s \<longrightarrow>
      fst (delete_db s) = length (records s) - length (records (snd (delete_db s)))) \<and>
   (unique_keys s \<and> lastQuery s = [] \<and> col \<noteq> ''id'' \<longrightarrow>
      fst (delete_db (where_db col v s)) = length (matching s col v) \<and>
      record_ids (snd (delete_db (where_db col v s))) =
        record_ids s - fst ` set (matching s col v))"
proof -
  have "record_ids (snd (delete_db s)) = record_ids s - scope_ids s"
    by (rule delete_db_record_ids)
  moreover have "unique_keys s \<longrightarrow>
      fst (delete_db s) = length (records s) - length (records (snd (delete_db s)))"
    using delete_db_count [of s] by auto
  moreover have "unique_keys s \<and> lastQuery s = [] \<and> col \<noteq> ''id'' \<longrightarrow>
      fst (delete_db (where_db col v s)) = length (matching s col v) \<and>
      record_ids (snd (delete_db (where_db col v s))) =
        record_ids s - fst ` set (matching s col v)"
  proof (intro impI conjI)
    assume a: "unique_keys s \<and> lastQuery s = [] \<and> col \<noteq> ''id''"
    then show "fst (delete_db (where_db col v s)) = length (matching s col v)"
      using delete_after_where by blast
    have "scope_ids (where_db col v s) = fst ` set (matching s col v)"
      using a where_db_scope_keys [of col v s] by (simp add: scope_ids_def)
    with delete_db_record_ids [of "where_db col v s"]
    show "record_ids (snd (delete_db (where_db col v s))) =
        record_ids s - fst ` set (matching s col v)"
      by (simp add: record_ids_def)
  qed
  ultimately show ?thesis
    by (simp add: scope_ids_def delete_db_empty_scope)
qed

text \<open>
  In the library one book has 10 pages: deleting after that filter returns 1 and leaves
  the books 2 and 3, and deleting again returns 0.
\<close>

theorem delete_removes_scope_witness:
  "unique_keys library \<and> lastQuery library = [] \<and> ''pages'' \<noteq> ''id'' \<and>
   length (matching library ''pages'' (JNum 10)) = 1 \<and>
   fst (delete_db (where_db ''pages'' (JNum 10) library)) = 1 \<and>
   record_ids (snd (delete_db (where_db ''pages'' (JNum 10) library))) = {2, 3} \<and>
   fst (delete_db (snd (delete_db (where_db ''pages'' (JNum 10) library)))) = 0"
proof -
  have u: "unique_keys library"
    using library_consistent by (simp add: consistent_def)
  have m: "matching library ''pages'' (JNum 10) = [(1, 0)]"
    by (rule library_matching)
  have c: "''pages'' \<noteq> ''id''" by simp
  note t = delete_removes_scope [of library "''pages''" "JNum 10"]
  note after_where = t [THEN conjunct2, THEN conjunct2, THEN conjunct2, THEN conjunct2,
      THEN conjunct2]
  from after_where u c
  have n: "fst (delete_db (where_db ''pages'' (JNum 10) library)) =
        length (matching library ''pages'' (JNum 10))"
    and r: "record_ids (snd (delete_db (where_db ''pages'' (JNum 10) library))) =
        record_ids library - fst ` set (matching library ''pages'' (JNum 10))"
    by (simp_all add: library_fields)
  have "record_ids library - fst ` set (matching library ''pages'' (JNum 10)) = {2, 3}"
    by (simp add: m record_ids_def library_fields) 
  moreover have "fst (delete_db (snd (delete_db (where_db ''pages'' (JNum 10) library)))) = 0"
    by (simp add: delete_db_empty_scope)
  ultimately show ?thesis
    using u c n r m by (simp add: library_fields)
qed

section \<open>Updating the Query Scope\<close>

lemma get_prop_Some: "ob k = Some v \<Longrightarrow> get_prop ob k = v"
  by (simp add: get_prop_def)

lemma call_Update_outcome:
  "fst (call (Update col v) s) =
     (case fst (update_db col v s) of None \<Rightarrow> This_Returned | Some e \<Rightarrow> Thrown e)"
  by (cases "update_db col v s"; cases "fst (update_db col v s)")
     (simp_all del: update_db_fields)

text \<open>
  Claim C4. In a state whose stored references are to objects of the store,
  \<^verbatim>\<open>update(column, value)\<close> leaves the Record Collection and the Query Scope as they
  are (the scope stays populated). When every identity of the Query Scope is in the Record
  Collection, the call returns the Database itself, and for every entry of the scope the
  column has the value both on the record the scope refers to and on the record the
  Record Collection has under that identity. When some identity of the Query Scope is
  absent from the Record Collection, the call throws the error for such an identity.
\<close>

theorem update_sets_column:
  assumes "refs_valid s"
  shows "records (snd (update_db col v s)) = records s \<and>
         lastQuery (snd (update_db col v s)) = lastQuery s \<and>
         (scope_ids s \<subseteq> record_ids s \<longrightarrow>
            fst (call (Update col v) s) = This_Returned \<and>
            (\<forall>(k, a) \<in> set (lastQuery s).
               get_prop (heap (snd (update_db col v s)) ! a) col = v \<and>
               (\<exists>d. map_of (records s) k = Some d \<and>
                    get_prop (heap (snd (update_db col v s)) ! d) col = v))) \<and>
         (\<not> scope_ids s \<subseteq> record_ids s \<longrightarrow>
            (\<exists>k. fst (call (Update col v) s) = Thrown (Error k) \<and>
                 k \<in> scope_ids s \<and> k \<notin> record_ids s))"
proof -
  let ?r = "update_loop (lastQuery s) (records s) col v (heap s)"
  have ok: "scope_ids s \<subseteq> record_ids s \<longrightarrow>
            fst (call (Update col v) s) = This_Returned \<and>
            (\<forall>(k, a) \<in> set (lastQuery s).
               get_prop (heap (snd (update_db col v s)) ! a) col = v \<and>
               (\<exists>d. map_of (records s) k = Some d \<and>
                    get_prop (heap (snd (update_db col v s)) ! d) col = v))"
  proof (intro impI conjI)
    assume sub: "scope_ids s \<subseteq> record_ids s"
    then have none: "fst ?r = None"
      unfolding scope_ids_def record_ids_def by (rule update_loop_no_error)
    then show "fst (call (Update col v) s) = This_Returned"
      by (simp add: call_Update_outcome del: call.simps)
    show "\<forall>(k, a) \<in> set (lastQuery s).
            get_prop (heap (snd (update_db col v s)) ! a) col = v \<and>
            (\<exists>d. map_of (records s) k = Some d \<and>
                 get_prop (heap (snd (update_db col v s)) ! d) col = v)"
    proof (clarify, intro conjI)
      fix k a assume e: "(k, a) \<in> set (lastQuery s)"
      note sets = update_loop_sets [OF none e]
      from assms e have a: "a < length (heap s)"
        by (auto simp: refs_valid_def list_all_iff)
      with sets show "get_prop (heap (snd (update_db col v s)) ! a) col = v"
        by (simp add: get_prop_Some)
      from sets obtain d where d: "map_of (records s) k = Some d"
        "d < length (heap s) \<longrightarrow> (snd ?r ! d) col = Some v"
        by blast
      from d(1) have "(k, d) \<in> set (records s)" by (rule map_of_SomeD)
      with assms have "d < length (heap s)"
        by (auto simp: refs_valid_def list_all_iff)
      with d show "\<exists>d. map_of (records s) k = Some d \<and>
          get_prop (heap (snd (update_db col v s)) ! d) col = v"
        by (simp add: get_prop_Some)
    qed
  qed
  have stale: "\<not> scope_ids s \<subseteq> record_ids s \<longrightarrow>
      (\<exists>k. fst (call (Update col v) s) = Thrown (Error k) \<and>
           k \<in> scope_ids s \<and> k \<notin> record_ids s)"
  proof
    assume "\<not> scope_ids s \<subseteq> record_ids s"
    then have "\<not> fst ` set (lastQuery s) \<subseteq> fst ` set (records s)"
      by (simp add: scope_ids_def record_ids_def)
    from update_loop_error [OF this, of col v "heap s"]
    obtain k where "fst ?r = Some (Error k)" "k \<in> fst ` set (lastQuery s)"
      "k \<notin> fst ` set (records s)"
      by blast
    then show "\<exists>k. fst (call (Update col v) s) = Thrown (Error k) \<and>
        k \<in> scope_ids s \<and> k \<notin> record_ids s"
      by (auto simp: call_Update_outcome scope_ids_def record_ids_def simp del: call.simps)
  qed
  from ok stale show ?thesis by simp
qed

text \<open>
  In the library, \<^verbatim>\<open>where("pages", 20).update("pages", 99)\<close> returns the Database and
  book 2 has 99 pages; in the stale state the same update throws the error for identity 1.
\<close>

lemma library_refs_valid: "refs_valid (where_db ''pages'' (JNum 20) library)"
  by (simp add: refs_valid_def library_fields where_db_def library_heap book_def
      get_prop_def map_set_def)

lemma library_pages_20:
  "lastQuery (where_db ''pages'' (JNum 20) library) = [(2, 1)]"
  by (simp add: where_db_def library_fields library_heap book_def get_prop_def map_set_def)

theorem update_sets_column_witness:
  "refs_valid (where_db ''pages'' (JNum 20) library) \<and>
   scope_ids (where_db ''pages'' (JNum 20) library) \<subseteq>
     record_ids (where_db ''pages'' (JNum 20) library) \<and>
   fst (call (Update ''pages'' (JNum 99)) (where_db ''pages'' (JNum 20) library)) =
     This_Returned \<and>
   get_prop (heap (snd (update_db ''pages'' (JNum 99)
     (where_db ''pages'' (JNum 20) library))) ! 1) ''pages'' = JNum 99 \<and>
   refs_valid stale_scope \<and> \<not> scope_ids stale_scope \<subseteq> record_ids stale_scope \<and>
   fst (call (Update ''pages'' (JNum 99)) stale_scope) = Thrown (Error 1)"
proof -
  let ?s = "where_db ''pages'' (JNum 20) library"
  have v: "refs_valid ?s" by (rule library_refs_valid)
  have sub: "scope_ids ?s \<subseteq> record_ids ?s"
    by (simp add: scope_ids_def record_ids_def library_pages_20 library_fields)
  note t = update_sets_column [OF v, of "''pages''" "JNum 99"]
  from t sub have ret: "fst (call (Update ''pages'' (JNum 99)) ?s) = This_Returned"
    and all: "\<forall>(k, a) \<in> set (lastQuery ?s).
        get_prop (heap (snd (update_db ''pages'' (JNum 99) ?s)) ! a) ''pages'' = JNum 99 \<and>
        (\<exists>d. map_of (records ?s) k = Some d \<and>
             get_prop (heap (snd (update_db ''pages'' (JNum 99) ?s)) ! d) ''pages'' = JNum 99)"
    by blast+
  from all have got: "get_prop (heap (snd (update_db ''pages'' (JNum 99) ?s)) ! 1) ''pages'' =
      JNum 99"
    by (simp add: library_pages_20)
  have v': "refs_valid stale_scope" by (simp add: refs_valid_def stale_scope_def)
  have st: "\<not> scope_ids stale_scope \<subseteq> record_ids stale_scope"
    by (simp add: scope_ids_def record_ids_def stale_scope_def)
  from update_sets_column [OF v', of "''pages''" "JNum 99"] st
  obtain k where "fst (call (Update ''pages'' (JNum 99)) stale_scope) = Thrown (Error k)"
    "k \<in> scope_ids stale_scope"
    by blast
  then have thrown: "fst (call (Update ''pages'' (JNum 99)) stale_scope) = Thrown (Error 1)"
    by (simp add: scope_ids_def stale_scope_def)
  from v sub ret got v' st thrown show ?thesis by blast
qed


section \<open>The Query Scope is within the Record Collection\<close>

lemma reachable_consistent: "consistent (run cs (fresh h))"
  by (rule run_consistent [OF consistent_fresh])

lemma call_keeps_records:
  assumes "c \<noteq> Delete" and "c \<noteq> Truncate"
  shows "record_ids s \<subseteq> record_ids (snd (call c s))"
proof (cases c)
  case (Insert d)
  then show ?thesis
    by (simp only: call_state insert_db_fields record_ids_def dom_update) blast
qed (use assms in \<open>simp_all only: call_state record_ids_def find_db_fields all_fields
      where_db_fields get_fields first_fields last_db_fields update_db_fields subset_refl\<close>)

text \<open>
  Claim C5. In every state that a sequence of public calls reaches from a new Database,
  every identity of the Query Scope is an identity of the Record Collection, and so
  \<^verbatim>\<open>update\<close> returns the Database there: its error branch is not reached. The reason
  is that a call other than \<^verbatim>\<open>delete\<close> and \<^verbatim>\<open>truncate\<close> removes no identity from the
  Record Collection, and that these two leave an empty Query Scope.
\<close>

theorem scope_within_records:
  "scope_ids (run cs (fresh h)) \<subseteq> record_ids (run cs (fresh h)) \<and>
   fst (call (Update col v) (run cs (fresh h))) = This_Returned \<and>
   (c \<noteq> Delete \<and> c \<noteq> Truncate \<longrightarrow> record_ids s \<subseteq> record_ids (snd (call c s))) \<and>
   scope_ids (snd (call Delete s)) = {} \<and>
   scope_ids (snd (call Truncate s)) = {}"
proof -
  have sub: "scope_ids (run cs (fresh h)) \<subseteq> record_ids (run cs (fresh h))"
    using reachable_consistent by (rule consistent_scope_ids)
  then have "fst (update_loop (lastQuery (run cs (fresh h))) (records (run cs (fresh h)))
      col v (heap (run cs (fresh h)))) = None"
    unfolding scope_ids_def record_ids_def by (rule update_loop_no_error)
  then have "fst (call (Update col v) (run cs (fresh h))) = This_Returned"
    by (simp add: call_Update_outcome del: call.simps)
  moreover have "scope_ids (snd (call Delete s)) = {}" "scope_ids (snd (call Truncate s)) = {}"
    by (simp_all only: call_state scope_ids_def delete_db_fields truncate_db_fields) simp_all
  ultimately show ?thesis
    using sub call_keeps_records [of c s] by blast
qed

text \<open>A filter removes no record, and after three inserts and a filter the scope is within
  the identities 1, 2 and 3.\<close>

theorem scope_within_records_witness:
  "Where ''pages'' (JNum 10) \<noteq> Delete \<and> Where ''pages'' (JNum 10) \<noteq> Truncate \<and>
   record_ids library \<subseteq> record_ids (snd (call (Where ''pages'' (JNum 10)) library)) \<and>
   scope_ids (run [Insert 0, Insert 1, Insert 2, Where ''pages'' (JNum 10)]
     (fresh [book 10, book 20, book 30])) \<subseteq> {1, 2, 3}"
proof -
  let ?cs = "[Insert 0, Insert 1, Insert 2, Where ''pages'' (JNum 10)]"
  let ?h = "[book 10, book 20, book 30]"
  note t = scope_within_records [of ?cs ?h "''pages''" "JNum 10" "Where ''pages'' (JNum 10)"
      library]
  have r: "run ?cs (fresh ?h) = where_db ''pages'' (JNum 10) library"
    using run_append [of "[Insert 0, Insert 1, Insert 2]" "[Where ''pages'' (JNum 10)]" "fresh ?h"]
    by (simp add: library_def del: call.simps run.simps(2))
      (simp only: run.simps call_state)
  have "record_ids (where_db ''pages'' (JNum 10) library) = {1, 2, 3}"
    by (auto simp add: record_ids_def library_fields)
  with t r show ?thesis by simp
qed

section \<open>The identity sequence\<close>

lemma merged_id:
  "''id'' \<notin> dom ob \<Longrightarrow> get_prop (object_assign [''id'' \<mapsto> JNum i] ob) ''id'' = JNum i"
  by (auto simp: get_prop_def object_assign_def map_add_def split: option.splits)

lemma merged_other:
  "k \<noteq> ''id'' \<Longrightarrow> get_prop (object_assign [''id'' \<mapsto> JNum i] ob) k = get_prop ob k"
  by (auto simp: get_prop_def object_assign_def map_add_def split: option.splits)

lemma run_truncate: "run [Truncate] s = truncate_db s"
  by simp

text \<open>
  Claim C6. An insert of a definition that has no \<^verbatim>\<open>id\<close> of its own returns a Model
  whose identity is the counter after the insert, one more than before. Any insert after
  it, whatever calls were made in between (\<^verbatim>\<open>truncate\<close> among them), returns a strictly
  greater identity. \<^verbatim>\<open>truncate\<close> leaves an empty Record Collection and an empty Query
  Scope and does not change the counter, so that the insert after a truncate returns the
  identity that follows the last one assigned.
\<close>

theorem insert_identities_increase:
  assumes "''id'' \<notin> dom (heap s ! d)"
    and "''id'' \<notin> dom (heap (run cs (snd (insert_db d s))) ! d')"
  shows "model_id (fst (insert_db d s)) = JNum (autoincrement s + 1) \<and>
         autoincrement (snd (insert_db d s)) = autoincrement s + 1 \<and>
         (\<exists>j. model_id (fst (insert_db d' (run cs (snd (insert_db d s))))) = JNum j \<and>
              autoincrement s + 1 < j) \<and>
         records (truncate_db s) = [] \<and> lastQuery (truncate_db s) = [] \<and>
         autoincrement (truncate_db s) = autoincrement s \<and>
         model_id (fst (insert_db d (truncate_db s))) = JNum (autoincrement s + 1)"
proof -
  let ?s1 = "snd (insert_db d s)"
  have first: "model_id (fst (insert_db d s)) = JNum (autoincrement s + 1)"
    using assms(1) by (simp add: merged_id)
  have later: "model_id (fst (insert_db d' (run cs ?s1))) =
      JNum (autoincrement (run cs ?s1) + 1)"
    using assms(2) by (simp add: merged_id)
  have "autoincrement ?s1 \<le> autoincrement (run cs ?s1)"
    by (rule run_autoincrement_mono)
  then have "autoincrement s + 1 < autoincrement (run cs ?s1) + 1" by simp
  with later have "\<exists>j. model_id (fst (insert_db d' (run cs ?s1))) = JNum j \<and>
      autoincrement s + 1 < j"
    by blast
  moreover have "model_id (fst (insert_db d (truncate_db s))) = JNum (autoincrement s + 1)"
    using assms(1) by (simp add: merged_id)
  ultimately show ?thesis using first by simp
qed

text \<open>
  Into a new Database: the first insert returns identity 1, and the insert after a
  truncate returns identity 2.
\<close>

theorem insert_identities_increase_witness:
  "''id'' \<notin> dom (heap (fresh [book 10]) ! 0) \<and>
   ''id'' \<notin> dom (heap (run [Truncate] (snd (insert_db 0 (fresh [book 10])))) ! 0) \<and>
   model_id (fst (insert_db 0 (fresh [book 10]))) = JNum 1 \<and>
   model_id (fst (insert_db 0 (run [Truncate] (snd (insert_db 0 (fresh [book 10])))))) =
     JNum 2 \<and>
   records (run [Truncate] (snd (insert_db 0 (fresh [book 10])))) = []"
proof -
  have a: "''id'' \<notin> dom (heap (fresh [book 10]) ! 0)"
    by (simp add: fresh_def book_def)
  have b: "''id'' \<notin> dom (heap (run [Truncate] (snd (insert_db 0 (fresh [book 10])))) ! 0)"
    by (simp add: fresh_def book_def)
  note t = insert_identities_increase [OF a b]
  from t have one: "model_id (fst (insert_db 0 (fresh [book 10]))) = JNum 1"
    by (simp add: fresh_def)
  have two: "model_id (fst (insert_db 0 (run [Truncate] (snd (insert_db 0 (fresh [book 10])))))) =
     JNum 2"
    using b by (simp add: merged_id) (simp add: fresh_def)
  from a b one two show ?thesis by simp
qed


section \<open>The last Model\<close>

lemma createFromTemplate_model_scope [simp]:
  "fst (createFromTemplate d i (s\<lparr>lastQuery := q\<rparr>)) = fst (createFromTemplate d i s)"
  by (simp add: createFromTemplate_def new_Model_def Let_def)

lemma last_db_result:
  "fst (last_db b s) =
     map_option (\<lambda>d. fst (createFromTemplate d (autoincrement s) s))
       (map_of (switchRecordsRetrieval b s) (autoincrement s))"
  by (simp add: last_db_def map_get_def split_def Let_def split: option.splits)

lemma counter_deleted:
  "autoincrement s \<notin> record_ids (snd (delete_db (where_db ''id'' (JNum (autoincrement s)) s)))"
proof (cases "map_of (records s) (autoincrement s)")
  case None
  then have "autoincrement s \<notin> fst ` set (records s)"
    by (simp add: map_of_eq_None_iff)
  then show ?thesis
    by (simp add: delete_db_record_ids) (simp add: record_ids_def)
next
  case (Some d)
  then have "autoincrement s \<in> scope_ids (where_db ''id'' (JNum (autoincrement s)) s)"
    by (simp add: where_db_def whereIndexed_def map_get_def map_set_def scope_ids_def dom_update)
  then show ?thesis
    by (simp add: delete_db_record_ids)
qed

lemma model_get_created:
  "k \<noteq> ''id'' \<Longrightarrow>
     model_get (fst (createFromTemplate d i s)) k (snd (createFromTemplate d i s)) =
       get_prop (heap s ! d) k"
  by (simp add: model_get_def merged_other)

lemma last_db_True:
  "fst (last_db True s) =
     map_option (\<lambda>d. fst (createFromTemplate d (autoincrement s) s))
       (map_of (lastQuery s) (autoincrement s))"
  by (simp add: last_db_result switchRecordsRetrieval_def)

lemma last_db_False:
  "fst (last_db False s) =
     map_option (\<lambda>d. fst (createFromTemplate d (autoincrement s) s))
       (map_of (records s) (autoincrement s))"
  by (simp add: last_db_result switchRecordsRetrieval_def)

lemma last_db_state:
  "map_of (switchRecordsRetrieval b s) (autoincrement s) = Some d \<Longrightarrow>
     snd (last_db b s) = snd (createFromTemplate d (autoincrement s) (s\<lparr>lastQuery := []\<rparr>))"
  by (simp add: last_db_def map_get_def split_def Let_def)

lemma model_get_scope [simp]:
  "model_get m k (snd (createFromTemplate d i (s\<lparr>lastQuery := q\<rparr>))) =
     model_get m k (snd (createFromTemplate d i s))"
  by (simp add: model_get_def)

lemma last_db_model:
  assumes "map_of (switchRecordsRetrieval b s) (autoincrement s) = Some d"
  shows "\<exists>m. fst (last_db b s) = Some m \<and>
           (\<forall>k. k \<noteq> ''id'' \<longrightarrow> model_get m k (snd (last_db b s)) = get_prop (heap s ! d) k) \<and>
           (''id'' \<notin> dom (heap s ! d) \<longrightarrow> model_id m = JNum (autoincrement s))"
  using assms
  by (simp add: last_db_result last_db_state model_get_created merged_id)

lemma counter_deleted_scope:
  "lastQuery s = [] \<Longrightarrow>
     record_ids (snd (delete_db (where_db ''id'' (JNum (autoincrement s)) s))) =
       record_ids s - {autoincrement s}"
proof (cases "map_of (records s) (autoincrement s)")
  case None
  then have "autoincrement s \<notin> record_ids s"
    by (simp add: map_of_eq_None_iff record_ids_def)
  moreover assume "lastQuery s = []"
  ultimately show ?thesis using None
    by (simp add: delete_db_record_ids)
      (simp add: where_db_def whereIndexed_def map_get_def scope_ids_def)
next
  case (Some d)
  moreover assume "lastQuery s = []"
  ultimately show ?thesis
    by (simp add: delete_db_record_ids)
      (simp add: where_db_def whereIndexed_def map_get_def map_set_def scope_ids_def
        record_ids_def)
qed

lemma last_db_after_deletion:
  "fst (last_db b (where_db col v
     (snd (delete_db (where_db ''id'' (JNum (autoincrement s)) s))))) = None"
proof -
  let ?gone = "snd (delete_db (where_db ''id'' (JNum (autoincrement s)) s))"
  let ?s = "where_db col v ?gone"
  have gone: "autoincrement s \<notin> fst ` set (records ?s)"
    using counter_deleted [of s] by (simp add: record_ids_def del: delete_db_fields(2))
  have "set (lastQuery ?s) \<subseteq> set (records ?s)"
    using where_db_scope_subset [of col v ?gone] by (simp del: delete_db_fields(2))
  with gone have "autoincrement s \<notin> fst ` set (lastQuery ?s)" by blast
  with gone have "map_of (switchRecordsRetrieval b ?s) (autoincrement ?s) = None"
    by (simp add: switchRecordsRetrieval_def map_of_eq_None_iff del: delete_db_fields(2))
  then show ?thesis by (simp add: last_db_result del: delete_db_fields(2))
qed

text \<open>
  Claim C7. \<^verbatim>\<open>last(true)\<close> looks the current value of the identity counter up in
  the Query Scope and \<^verbatim>\<open>last(false)\<close> looks it up in the Record Collection; neither
  takes the last entry by iteration. The result is empty exactly when that map has no
  entry under the counter; otherwise it is a Model of the entry found there: its fields
  other than \<^verbatim>\<open>id\<close> read as those of the record, and its identity is the counter
  when the record has no \<^verbatim>\<open>id\<close> of its own. Deleting the record of the counter's
  identity, from an empty scope, removes that identity and no other. After it
  \<^verbatim>\<open>last(false)\<close> returns the empty result, and so do \<^verbatim>\<open>last(false)\<close> and
  \<^verbatim>\<open>last(true)\<close> after any further filter, whatever records remain in the map read.
\<close>

theorem last_looks_up_counter:
  "fst (last_db True s) =
     map_option (\<lambda>d. fst (createFromTemplate d (autoincrement s) s))
       (map_of (lastQuery s) (autoincrement s)) \<and>
   fst (last_db False s) =
     map_option (\<lambda>d. fst (createFromTemplate d (autoincrement s) s))
       (map_of (records s) (autoincrement s)) \<and>
   (fst (last_db True s) = None \<longleftrightarrow> autoincrement s \<notin> scope_ids s) \<and>
   (fst (last_db False s) = None \<longleftrightarrow> autoincrement s \<notin> record_ids s) \<and>
   (\<forall>d. map_of (lastQuery s) (autoincrement s) = Some d \<longrightarrow>
      (\<exists>m. fst (last_db True s) = Some m \<and>
         (\<forall>k. k \<noteq> ''id'' \<longrightarrow>
            model_get m k (snd (last_db True s)) = get_prop (heap s ! d) k) \<and>
         (''id'' \<notin> dom (heap s ! d) \<longrightarrow> model_id m = JNum (autoincrement s)))) \<and>
   (\<forall>d. map_of (records s) (autoincrement s) = Some d \<longrightarrow>
      (\<exists>m. fst (last_db False s) = Some m \<and>
         (\<forall>k. k \<noteq> ''id'' \<longrightarrow>
            model_get m k (snd (last_db False s)) = get_prop (heap s ! d) k) \<and>
         (''id'' \<notin> dom (heap s ! d) \<longrightarrow> model_id m = JNum (autoincrement s)))) \<and>
   (lastQuery s = [] \<longrightarrow>
      record_ids (snd (delete_db (where_db ''id'' (JNum (autoincrement s)) s))) =
        record_ids s - {autoincrement s}) \<and>
   fst (last_db False (snd (delete_db (where_db ''id'' (JNum (autoincrement s)) s)))) = None \<and>
   fst (last_db False (where_db col v
     (snd (delete_db (where_db ''id'' (JNum (autoincrement s)) s))))) = None \<and>
   fst (last_db True (where_db col v
     (snd (delete_db (where_db ''id'' (JNum (autoincrement s)) s))))) = None"
proof (intro conjI)
  show "fst (last_db True s) =
     map_option (\<lambda>d. fst (createFromTemplate d (autoincrement s) s))
       (map_of (lastQuery s) (autoincrement s))"
    by (rule last_db_True)
  show "fst (last_db False s) =
     map_option (\<lambda>d. fst (createFromTemplate d (autoincrement s) s))
       (map_of (records s) (autoincrement s))"
    by (rule last_db_False)
  show "fst (last_db True s) = None \<longleftrightarrow> autoincrement s \<notin> scope_ids s"
    by (simp add: last_db_True scope_ids_def map_of_eq_None_iff)
  show "fst (last_db False s) = None \<longleftrightarrow> autoincrement s \<notin> record_ids s"
    by (simp add: last_db_False record_ids_def map_of_eq_None_iff)
  show "\<forall>d. map_of (lastQuery s) (autoincrement s) = Some d \<longrightarrow>
      (\<exists>m. fst (last_db True s) = Some m \<and>
         (\<forall>k. k \<noteq> ''id'' \<longrightarrow>
            model_get m k (snd (last_db True s)) = get_prop (heap s ! d) k) \<and>
         (''id'' \<notin> dom (heap s ! d) \<longrightarrow> model_id m = JNum (autoincrement s)))"
    using last_db_model [of True s] by (simp add: switchRecordsRetrieval_def)
  show "\<forall>d. map_of (records s) (autoincrement s) = Some d \<longrightarrow>
      (\<exists>m. fst (last_db False s) = Some m \<and>
         (\<forall>k. k \<noteq> ''id'' \<longrightarrow>
            model_get m k (snd (last_db False s)) = get_prop (heap s ! d) k) \<and>
         (''id'' \<notin> dom (heap s ! d) \<longrightarrow> model_id m = JNum (autoincrement s)))"
    using last_db_model [of False s] by (simp add: switchRecordsRetrieval_def)
  show "lastQuery s = [] \<longrightarrow>
      record_ids (snd (delete_db (where_db ''id'' (JNum (autoincrement s)) s))) =
        record_ids s - {autoincrement s}"
    using counter_deleted_scope [of s] by (rule impI)
  show "fst (last_db False (snd (delete_db (where_db ''id'' (JNum (autoincrement s)) s)))) =
      None"
    using counter_deleted [of s]
    by (simp add: last_db_False record_ids_def map_of_eq_None_iff del: delete_db_fields(2))
  show "fst (last_db False (where_db col v
     (snd (delete_db (where_db ''id'' (JNum (autoincrement s)) s))))) = None"
    by (rule last_db_after_deletion)
  show "fst (last_db True (where_db col v
     (snd (delete_db (where_db ''id'' (JNum (autoincrement s)) s))))) = None"
    by (rule last_db_after_deletion)
qed

text \<open>
  In the library the counter is 3 and the scope is empty: \<^verbatim>\<open>last(true)\<close> returns the
  empty result and \<^verbatim>\<open>last(false)\<close> the Model of identity 3, with 30 pages. With the
  book of 10 pages selected \<^verbatim>\<open>last(true)\<close> returns the empty result, although the
  scope has an entry; with the book of 30 pages selected it returns the Model of identity
  3. After book 3 has been deleted the books 1 and 2 remain: \<^verbatim>\<open>last(false)\<close> returns
  the empty result, and so does \<^verbatim>\<open>last(true)\<close> with the book of 10 pages selected.
\<close>

lemma library_pages_30:
  "lastQuery (where_db ''pages'' (JNum 30) library) = [(3, 2)]"
  by (simp add: where_db_def library_fields library_heap book_def get_prop_def map_set_def)

lemma library_last_deleted:
  "records (snd (delete_db (where_db ''id'' (JNum 3) library))) = [(1, 0), (2, 1)]"
  "lastQuery (where_db ''pages'' (JNum 10) (snd (delete_db (where_db ''id'' (JNum 3) library)))) =
     [(1, 0)]"
  by (simp_all add: where_db_def whereIndexed_def map_get_def map_set_def library_fields
      library_heap book_def get_prop_def)

theorem last_looks_up_counter_witness:
  "autoincrement library = 3 \<and> lastQuery library = [] \<and>
   map_of (records library) 3 = Some 2 \<and>
   fst (last_db True library) = None \<and>
   (\<exists>m. fst (last_db False library) = Some m \<and> model_id m = JNum 3 \<and>
        model_get m ''pages'' (snd (last_db False library)) = JNum 30) \<and>
   lastQuery (where_db ''pages'' (JNum 10) library) = [(1, 0)] \<and>
   fst (last_db True (where_db ''pages'' (JNum 10) library)) = None \<and>
   map_of (lastQuery (where_db ''pages'' (JNum 30) library)) 3 = Some 2 \<and>
   (\<exists>m. fst (last_db True (where_db ''pages'' (JNum 30) library)) = Some m \<and>
        model_id m = JNum 3) \<and>
   record_ids (snd (delete_db (where_db ''id'' (JNum 3) library))) = {1, 2} \<and>
   fst (last_db False (snd (delete_db (where_db ''id'' (JNum 3) library)))) = None \<and>
   lastQuery (where_db ''pages'' (JNum 10)
     (snd (delete_db (where_db ''id'' (JNum 3) library)))) = [(1, 0)] \<and>
   fst (last_db True (where_db ''pages'' (JNum 10)
     (snd (delete_db (where_db ''id'' (JNum 3) library))))) = None"
proof -
  let ?p10 = "where_db ''pages'' (JNum 10) library"
  let ?p30 = "where_db ''pages'' (JNum 30) library"
  note lib = last_looks_up_counter [of library "''pages''" "JNum 10"]
  note p10 = last_looks_up_counter [of ?p10 "''pages''" "JNum 10"]
  note p30 = last_looks_up_counter [of ?p30 "''pages''" "JNum 10"]
  note lib_rest = lib [THEN conjunct2, THEN conjunct2]
  note lib_records = lib_rest [THEN conjunct2, THEN conjunct2, THEN conjunct2, THEN conjunct1]
  note deleted = lib_rest [THEN conjunct2, THEN conjunct2, THEN conjunct2, THEN conjunct2]
  note p10_empty = p10 [THEN conjunct2, THEN conjunct2, THEN conjunct1]
  note p30_scope = p30 [THEN conjunct2, THEN conjunct2, THEN conjunct2, THEN conjunct2,
      THEN conjunct1]
  have noid: "''id'' \<notin> dom (heap library ! 2)" by (simp add: library_heap book_def)
  have pages: "get_prop (heap library ! 2) ''pages'' = JNum 30"
    by (simp add: library_heap book_def get_prop_def)
  have a: "fst (last_db True library) = None"
    using lib_rest [THEN conjunct1] by (simp add: scope_ids_def library_fields(2))
  have stored: "map_of (records library) (autoincrement library) = Some 2"
    by (simp add: library_fields)
  with lib_records obtain m where m: "fst (last_db False library) = Some m"
    "\<forall>k. k \<noteq> ''id'' \<longrightarrow>
       model_get m k (snd (last_db False library)) = get_prop (heap library ! 2) k"
    "''id'' \<notin> dom (heap library ! 2) \<longrightarrow> model_id m = JNum (autoincrement library)"
    by blast
  from m(2) pages have "model_get m ''pages'' (snd (last_db False library)) = JNum 30"
    by simp
  moreover from m(3) noid have "model_id m = JNum 3" by (simp add: library_fields(3))
  ultimately have b: "\<exists>m. fst (last_db False library) = Some m \<and> model_id m = JNum 3 \<and>
      model_get m ''pages'' (snd (last_db False library)) = JNum 30"
    using m(1) by blast
  have c: "fst (last_db True ?p10) = None"
    using p10_empty by (simp add: scope_ids_def library_pages_10 library_fields(3))
  have selected: "map_of (lastQuery ?p30) (autoincrement ?p30) = Some 2"
    by (simp add: library_pages_30 library_fields(3))
  with p30_scope obtain m' where m': "fst (last_db True ?p30) = Some m'"
    "''id'' \<notin> dom (heap ?p30 ! 2) \<longrightarrow> model_id m' = JNum (autoincrement ?p30)"
    by blast
  from m'(2) noid have "model_id m' = JNum 3" by (simp add: library_fields(3))
  with m'(1) have d: "\<exists>m. fst (last_db True ?p30) = Some m \<and> model_id m = JNum 3"
    by blast
  have "record_ids (snd (delete_db (where_db ''id'' (JNum (autoincrement library)) library))) =
      record_ids library - {autoincrement library}"
    using deleted [THEN conjunct1] by (simp add: library_fields(2))
  moreover have "record_ids library - {autoincrement library} = {1, 2}"
    by (auto simp: record_ids_def library_fields)
  ultimately
  have e: "record_ids (snd (delete_db (where_db ''id'' (JNum 3) library))) = {1, 2}"
    by (simp only: library_fields(3))
  have f: "fst (last_db False (snd (delete_db (where_db ''id'' (JNum 3) library)))) = None"
    using deleted [THEN conjunct2, THEN conjunct1] by (simp only: library_fields(3))
  have g: "fst (last_db True (where_db ''pages'' (JNum 10)
      (snd (delete_db (where_db ''id'' (JNum 3) library))))) = None"
    using deleted [THEN conjunct2, THEN conjunct2, THEN conjunct2]
    by (simp only: library_fields(3))
  have h: "map_of (lastQuery ?p30) 3 = Some 2" by (simp add: library_pages_30)
  have i: "map_of (records library) 3 = Some 2" by (simp add: library_fields)
  from a b c d e f g h i library_fields(2,3) library_pages_10 library_last_deleted(2)
  show ?thesis by (intro conjI)
qed

section \<open>Finding what was inserted\<close>

lemma find_db_absent:
  assumes "i \<notin> record_ids s"
  shows "find_db i s = (None, s)"
proof -
  have "map_of (records s) i = None"
    using assms by (simp add: record_ids_def map_of_eq_None_iff)
  then show ?thesis by (simp add: find_db_def map_get_def)
qed

lemma find_db_present:
  "map_of (records s) i = Some d \<Longrightarrow>
     find_db i s = (Some (fst (createFromTemplate d i s)), snd (createFromTemplate d i s))"
  by (simp add: find_db_def map_get_def split_def Let_def)

text \<open>
  Claim C9. For a definition that is an object of the store and has no \<^verbatim>\<open>id\<close> of its
  own: \<^verbatim>\<open>find\<close> of the identity that \<^verbatim>\<open>insert\<close> returned gives a Model of that
  identity, and every field of it other than \<^verbatim>\<open>id\<close> reads as the field of the
  definition. For an identity that the Record Collection does not have, \<^verbatim>\<open>find\<close>
  returns the empty result and leaves the state as it is; it has no error to raise.
\<close>

theorem find_after_insert:
  assumes "d < length (heap s)" and "''id'' \<notin> dom (heap s ! d)"
  shows "(\<exists>i m. model_id (fst (insert_db d s)) = JNum i \<and>
            fst (find_db i (snd (insert_db d s))) = Some m \<and>
            model_id m = JNum i \<and>
            (\<forall>k. k \<noteq> ''id'' \<longrightarrow>
               model_get m k (snd (find_db i (snd (insert_db d s)))) =
                 get_prop (heap s ! d) k)) \<and>
         (j \<notin> record_ids s \<longrightarrow> find_db j s = (None, s))"
proof -
  let ?i = "autoincrement s + 1"
  let ?s1 = "snd (insert_db d s)"
  let ?m = "fst (createFromTemplate d ?i ?s1)"
  have id: "model_id (fst (insert_db d s)) = JNum ?i"
    using assms(2) by (simp add: merged_id)
  have same: "heap ?s1 ! d = heap s ! d"
    using assms(1) by (simp add: nth_append)
  have stored: "map_of (records ?s1) ?i = Some d"
    by (simp add: update_conv')
  note found = find_db_present [OF stored]
  have id': "model_id ?m = JNum ?i"
    using assms(2) same by (simp add: merged_id del: insert_db_fields(4))
  have fields: "\<forall>k. k \<noteq> ''id'' \<longrightarrow>
      model_get ?m k (snd (find_db ?i ?s1)) = get_prop (heap s ! d) k"
    using same by (simp add: found model_get_created del: insert_db_fields(4))
  from id id' fields found
  have "\<exists>i m. model_id (fst (insert_db d s)) = JNum i \<and>
            fst (find_db i ?s1) = Some m \<and> model_id m = JNum i \<and>
            (\<forall>k. k \<noteq> ''id'' \<longrightarrow>
               model_get m k (snd (find_db i ?s1)) = get_prop (heap s ! d) k)"
    by (intro exI [of _ ?i] exI [of _ ?m]) simp
  then show ?thesis using find_db_absent by blast
qed

text \<open>
  In a new Database identity 7 is not found; after the book of 10 pages has been
  inserted, the Model found under identity 1 has 10 pages.
\<close>

theorem find_after_insert_witness:
  "(0::nat) < length (heap (fresh [book 10])) \<and> ''id'' \<notin> dom (heap (fresh [book 10]) ! 0) \<and>
   7 \<notin> record_ids (fresh [book 10]) \<and>
   find_db 7 (fresh [book 10]) = (None, fresh [book 10]) \<and>
   (\<exists>m. fst (find_db 1 (snd (insert_db 0 (fresh [book 10])))) = Some m \<and>
        model_get m ''pages'' (snd (find_db 1 (snd (insert_db 0 (fresh [book 10]))))) =
          JNum 10)"
proof -
  have a: "0 < length (heap (fresh [book 10]))" by (simp add: fresh_def)
  have b: "''id'' \<notin> dom (heap (fresh [book 10]) ! 0)" by (simp add: fresh_def book_def)
  have c: "7 \<notin> record_ids (fresh [book 10])" by (simp add: record_ids_def fresh_def)
  note t = find_after_insert [OF a b, of 7]
  from t c have none: "find_db 7 (fresh [book 10]) = (None, fresh [book 10])" by blast
  from t obtain i m where i: "model_id (fst (insert_db 0 (fresh [book 10]))) = JNum i"
    and m: "fst (find_db i (snd (insert_db 0 (fresh [book 10])))) = Some m"
      "\<forall>k. k \<noteq> ''id'' \<longrightarrow>
         model_get m k (snd (find_db i (snd (insert_db 0 (fresh [book 10]))))) =
           get_prop (heap (fresh [book 10]) ! 0) k"
    by blast
  from i b have "i = 1" by (simp add: merged_id) (simp add: fresh_def)
  moreover have "get_prop (heap (fresh [book 10]) ! 0) ''pages'' = JNum 10"
    by (simp add: fresh_def book_def get_prop_def)
  ultimately have "\<exists>m. fst (find_db 1 (snd (insert_db 0 (fresh [book 10])))) = Some m \<and>
        model_get m ''pages'' (snd (find_db 1 (snd (insert_db 0 (fresh [book 10]))))) =
          JNum 10"
    using m by auto
  with a b c none show ?thesis by blast
qed

section \<open>Assigning fields of a Model\<close>

lemma model_set_fields [simp]:
  "records (model_set m k v s) = records s"
  "lastQuery (model_set m k v s) = lastQuery s"
  "autoincrement (model_set m k v s) = autoincrement s"
  "length (heap (model_set m k v s)) = length (heap s)"
  by (simp_all add: model_set_def)

lemma model_set_other: "a \<noteq> backing m \<Longrightarrow> heap (model_set m k v s) ! a = heap s ! a"
  by (simp add: model_set_def nth_set_prop_other)

lemma assign_all_fields [simp]:
  "records (assign_all as s) = records s"
  "lastQuery (assign_all as s) = lastQuery s"
  "autoincrement (assign_all as s) = autoincrement s"
  "length (heap (assign_all as s)) = length (heap s)"
  by (induction as s rule: assign_all.induct; simp)+

lemma assign_all_other:
  "\<forall>(m, k, v) \<in> set as. backing m \<noteq> a \<Longrightarrow> heap (assign_all as s) ! a = heap s ! a"
  by (induction as s rule: assign_all.induct) (auto simp: model_set_other)

lemma call_result:
  "fst (call (Insert d) s) = Model_Returned (Some (fst (insert_db d s)))"
  "fst (call (Find i) s) = Model_Returned (fst (find_db i s))"
  "fst (call All s) = Models_Returned (fst (all s))"
  "fst (call (Count b) s) = Number_Returned (count b s)"
  "fst (call (Where col v) s) = This_Returned"
  "fst (call Get s) = Models_Returned (fst (get s))"
  "fst (call (First b) s) = Model_Returned (fst (first b s))"
  "fst (call (Last b) s) = Model_Returned (fst (last_db b s))"
  "fst (call Delete s) = Number_Returned (fst (delete_db s))"
  "fst (call Truncate s) = Nothing_Returned"
  by (simp_all add: split_def Let_def)

lemma find_db_result:
  "fst (find_db i s) = map_option (\<lambda>d. fst (createFromTemplate d i s)) (map_of (records s) i)"
  by (simp add: find_db_def map_get_def split_def Let_def split: option.splits)

lemma first_result:
  "fst (first b s) =
     (case switchRecordsRetrieval b s of
        [] \<Rightarrow> None
      | (k, d) # _ \<Rightarrow> Some (fst (createFromTemplate d k s)))"
  by (simp add: first_def split_def Let_def split: list.splits)

lemma models_of_option: "m \<in> set (models_of (Model_Returned r)) \<longleftrightarrow> r = Some m"
  by (cases r) auto

lemma call_models_fresh:
  assumes "m \<in> set (models_of (fst (call c s)))"
  shows "length (heap s) \<le> backing m"
proof (cases c)
  case (Insert d)
  with assms show ?thesis by (simp add: call_result models_of_option del: call.simps)
next
  case (Find i)
  with assms show ?thesis
    by (auto simp: call_result models_of_option find_db_result simp del: call.simps)
next
  case All
  with assms instantiate_models [of "records s" "[]" s] show ?thesis
    by (auto simp: call_result all_def simp del: call.simps)
next
  case Get
  with assms instantiate_models [of "lastQuery s" "[]" s] show ?thesis
    by (auto simp: call_result get_def split_def Let_def simp del: call.simps)
next
  case (First b)
  with assms show ?thesis
    by (auto simp: call_result models_of_option first_result simp del: call.simps
        split: list.splits)
next
  case (Last b)
  with assms show ?thesis
    by (auto simp: call_result models_of_option last_db_result simp del: call.simps)
next
  case (Update col v)
  with assms show ?thesis
    by (simp add: call_Update_outcome del: call.simps split: option.splits)
qed (use assms in \<open>simp_all add: call_result del: call.simps\<close>)

lemma call_records_refs:
  assumes "refs_valid s" and "args_valid c s" and "(i, a) \<in> set (records (snd (call c s)))"
  shows "a < length (heap s)"
proof -
  from assms(1) have old: "\<forall>(i, a) \<in> set (records s). a < length (heap s)"
    by (simp add: refs_valid_def list_all_iff)
  show ?thesis
  proof (cases c)
    case (Insert d)
    with assms(2) have d: "d < length (heap s)" by (simp add: args_valid_def)
    have "set (AList.update (autoincrement s + 1) d (records s)) \<subseteq>
        insert (autoincrement s + 1, d) (set (records s))"
      by (rule set_update_subset)
    with assms(3) Insert d old show ?thesis
      by (auto simp only: call_state insert_db_fields)
  next
    case Delete
    with assms(3) old show ?thesis by (auto simp only: call_state delete_db_fields set_filter)
  next
    case Truncate
    with assms(3) show ?thesis by (simp only: call_state truncate_db_fields) simp
  qed (use assms(3) old in \<open>auto simp only: call_state find_db_fields all_fields
      where_db_fields get_fields first_fields last_db_fields update_db_fields\<close>)
qed


text \<open>
  Claim C10. Take a state whose stored references are to objects of the store, a call
  with a valid argument, and any sequence of assignments to fields of Models that the call
  returned (the Models of \<^verbatim>\<open>find\<close>, \<^verbatim>\<open>all\<close>, \<^verbatim>\<open>get\<close>, \<^verbatim>\<open>first\<close> and
  \<^verbatim>\<open>last\<close>, and the one of \<^verbatim>\<open>insert\<close> as well). After the assignments the Record
  Collection has the same entries, and the record stored under each identity is the
  object it was, with every field as before.
\<close>

theorem model_assignment_leaves_records:
  assumes "refs_valid s" and "args_valid c s"
    and "\<forall>(m, k, v) \<in> set as. m \<in> set (models_of (fst (call c s)))"
  shows "records (assign_all as (snd (call c s))) = records (snd (call c s)) \<and>
         (\<forall>(i, a) \<in> set (records (snd (call c s))).
            heap (assign_all as (snd (call c s))) ! a = heap (snd (call c s)) ! a)"
proof -
  have "heap (assign_all as (snd (call c s))) ! a = heap (snd (call c s)) ! a"
    if "(i, a) \<in> set (records (snd (call c s)))" for i a
  proof (rule assign_all_other, clarify)
    fix m k v assume "(m, k, v) \<in> set as" and eq: "a = backing m"
    with assms(3) have "m \<in> set (models_of (fst (call c s)))" by blast
    then have "length (heap s) \<le> backing m" by (rule call_models_fresh)
    moreover have "a < length (heap s)"
      using assms(1,2) that by (rule call_records_refs)
    ultimately show False using eq by simp
  qed
  then show ?thesis by auto
qed

text \<open>
  The book of 10 pages is found under identity 1; assigning 99999 pages to the Model
  found changes what the Model reads, and the stored book still has 10 pages.
\<close>

lemma one_book_fields:
  "records one_book = [(1, 0)]"
  "lastQuery one_book = []"
  "length (heap one_book) = 2"
  "heap one_book ! 0 = book 10"
  by (simp_all add: one_book_def fresh_def)

lemma nth_append_at: "length xs = n \<Longrightarrow> (xs @ x # ys) ! n = x"
  by auto

lemma one_book_find:
  "find_db 1 one_book =
     (Some \<lparr>model_id = JNum 1, backing = 2\<rparr>,
      one_book\<lparr>heap := heap one_book @ [object_assign [''id'' \<mapsto> JNum 1] (book 10)]\<rparr>)"
proof -
  have "map_of (records one_book) 1 = Some 0" by (simp add: one_book_fields)
  then have "find_db 1 one_book =
      (Some (fst (createFromTemplate 0 1 one_book)), snd (createFromTemplate 0 1 one_book))"
    by (rule find_db_present)
  moreover have "''id'' \<notin> dom (book 10)" by (simp add: book_def)
  ultimately show ?thesis
    by (simp add: createFromTemplate_def new_Model_def Let_def one_book_fields merged_id
        nth_append_at [OF one_book_fields(3)])
qed

theorem model_assignment_leaves_records_witness:
  "refs_valid one_book \<and> args_valid (Find 1) one_book \<and>
   models_of (fst (call (Find 1) one_book)) = [\<lparr>model_id = JNum 1, backing = 2\<rparr>] \<and>
   records (snd (call (Find 1) one_book)) = [(1, 0)] \<and>
   heap (assign_all [(\<lparr>model_id = JNum 1, backing = 2\<rparr>, ''pages'', JNum 99999)]
     (snd (call (Find 1) one_book))) ! 0 = book 10 \<and>
   model_get \<lparr>model_id = JNum 1, backing = 2\<rparr> ''pages''
     (assign_all [(\<lparr>model_id = JNum 1, backing = 2\<rparr>, ''pages'', JNum 99999)]
       (snd (call (Find 1) one_book))) = JNum 99999"
proof -
  let ?m = "\<lparr>model_id = JNum 1, backing = 2\<rparr>"
  let ?as = "[(?m, ''pages'', JNum 99999)]"
  have v: "refs_valid one_book" by (simp add: refs_valid_def one_book_fields)
  have a: "args_valid (Find 1) one_book" by (simp add: args_valid_def)
  have ms: "models_of (fst (call (Find 1) one_book)) = [?m]"
    by (simp add: call_result one_book_find del: call.simps)
  then have h: "\<forall>(m, k, v) \<in> set ?as. m \<in> set (models_of (fst (call (Find 1) one_book)))"
    by simp
  have r: "records (snd (call (Find 1) one_book)) = [(1, 0)]"
    by (simp only: call_state find_db_fields one_book_fields)
  have s: "heap (snd (call (Find 1) one_book)) ! 0 = book 10"
    by (simp add: call_state one_book_find one_book_fields nth_append del: call.simps)
  from model_assignment_leaves_records [OF v a h] r s
  have stored: "heap (assign_all ?as (snd (call (Find 1) one_book))) ! 0 = book 10"
    by simp
  have "model_get ?m ''pages'' (assign_all ?as (snd (call (Find 1) one_book))) = JNum 99999"
    by (simp add: call_state one_book_find one_book_fields model_get_def
        model_set_def set_prop_def book_def object_assign_def get_prop_def
        nth_append_at [OF one_book_fields(3)] del: call.simps)
  with v a ms r stored show ?thesis by simp
qed

section \<open>References stay valid\<close>

text \<open>
  A call with a valid argument, in a state whose stored references are to objects of the
  store, leaves such a state: the hypothesis of the claims C4 and C10 holds along every
  sequence of calls.
\<close>

lemma call_heap_grows: "length (heap s) \<le> length (heap (snd (call c s)))"
proof (cases c)
  case (Find i)
  then show ?thesis
    by (simp add: find_db_def split_def Let_def split: option.splits)
next
  case All
  with instantiate_heap [of "records s" "[]" s] show ?thesis
    by (auto simp: all_def split_def Let_def)
next
  case Get
  with instantiate_heap [of "lastQuery s" "[]" s] show ?thesis
    by (auto simp: get_def split_def Let_def)
next
  case (First b)
  then show ?thesis
    by (simp add: first_def split_def Let_def split: list.splits)
next
  case (Last b)
  then show ?thesis
    by (simp add: last_db_def split_def Let_def split: option.splits)
next
  case (Update col v)
  then show ?thesis by (simp only: call_state update_db_fields update_loop_length)
qed (simp_all add: split_def Let_def)

lemma call_scope_refs:
  assumes "refs_valid s" and "(i, a) \<in> set (lastQuery (snd (call c s)))"
  shows "a < length (heap s)"
proof -
  from assms(1) have old: "\<forall>(i, a) \<in> set (records s) \<union> set (lastQuery s). a < length (heap s)"
    by (auto simp: refs_valid_def list_all_iff)
  show ?thesis
  proof (cases c)
    case (Where col v)
    with assms(2) where_db_scope_subset [of col v s] old show ?thesis
      by (auto simp only: call_state)
  next
    case (First b)
    with assms(2) old show ?thesis
      by (auto simp: call_state first_lastQuery simp del: call.simps split: if_splits)
  next
    case (Last b)
    with assms(2) old show ?thesis
      by (auto simp: call_state last_db_lastQuery simp del: call.simps split: if_splits)
  qed (use assms(2) old in \<open>auto simp: call_state simp del: call.simps\<close>)
qed

lemma call_refs_valid:
  assumes "refs_valid s" and "args_valid c s"
  shows "refs_valid (snd (call c s))"
  using call_records_refs [OF assms] call_scope_refs [OF assms(1), of _ _ c]
    call_heap_grows [of s c]
  unfolding refs_valid_def list_all_iff by fastforce

end
